theory Spec2Isabelle
  imports Main "HOL-Library.Word" "HOL-Library.AList" "HOL-Library.Sublist"
begin

section \<open>Bytes and errors\<close>

type_synonym byte = "8 word"
type_synonym bytes = "byte list"

text \<open>The exceptions the module can raise: \<open>zstd.ZstdError\<close> propagated from the
  decompression library, \<open>httpx.DecodingError\<close> raised by \<open>ZstdDecoder.flush\<close>, and the
  two Python errors \<open>Session.request\<close> can run into before it issues a request.\<close>

datatype error = ZstdError string | DecodingError string | AttributeError | TypeError

section \<open>The decompression library\<close>

text \<open>\<open>reqwests.py\<close> imports \<open>zstandard\<close>; the library is a parameter of the model.
  A value of \<open>'s zstd_api\<close> gives the five operations \<open>ZstdDecoder\<close> uses on a
  decompression object with state \<open>'s\<close>:
  \<^item> \<open>decompressobj\<close>: the object \<open>zstd.ZstdDecompressor().decompressobj()\<close> returns;
  \<^item> \<open>decompress obj data\<close>: \<open>obj.decompress(data)\<close>, either \<open>Inl msg\<close> (it raises
    \<open>ZstdError(msg)\<close>) or \<open>Inr (out, obj')\<close> (it returns \<open>out\<close> and leaves the
    object in state \<open>obj'\<close>);
  \<^item> \<open>eof obj\<close> and \<open>unused_data obj\<close>: the two properties;
  \<^item> \<open>obj_flush obj\<close>: \<open>obj.flush()\<close>.\<close>

record 's zstd_api =
  decompressobj :: 's
  decompress :: "'s \<Rightarrow> bytes \<Rightarrow> string + bytes \<times> 's"
  eof :: "'s \<Rightarrow> bool"
  unused_data :: "'s \<Rightarrow> bytes"
  obj_flush :: "'s \<Rightarrow> bytes"

section \<open>ZstdDecoder\<close>

record 's ZstdDecoder =
  decompressor :: 's

text \<open>\<open>ZstdDecoder.__init__\<close>.\<close>

definition init :: "'s zstd_api \<Rightarrow> 's ZstdDecoder" where
  "init Z = \<lparr>decompressor = decompressobj Z\<rparr>"

text \<open>The \<open>while\<close> loop of \<open>ZstdDecoder.decode\<close>, with \<open>self.decompressor\<close> and
  \<open>data_parts\<close> as its state. The source gives no bound on the number of rounds, so the
  loop is a partial function: \<open>None\<close> is a loop that never ends. An exception of the
  library leaves the loop as \<open>Inl\<close>; the decoder is not used after it.\<close>

partial_function (option) decode_loop ::
  "'s zstd_api \<Rightarrow> 's \<Rightarrow> bytes list \<Rightarrow> (error + bytes \<times> 's ZstdDecoder) option" where
  "decode_loop Z obj data_parts =
     (if eof Z obj \<and> unused_data Z obj \<noteq> [] then
        (case decompress Z (decompressobj Z) (unused_data Z obj) of
           Inl msg \<Rightarrow> Some (Inl (ZstdError msg))
         | Inr (part, obj') \<Rightarrow> decode_loop Z obj' (data_parts @ [part]))
      else Some (Inr (concat data_parts, \<lparr>decompressor = obj\<rparr>)))"

declare decode_loop.simps [code]

text \<open>\<open>ZstdDecoder.decode\<close>.\<close>

definition decode ::
  "'s zstd_api \<Rightarrow> 's ZstdDecoder \<Rightarrow> bytes \<Rightarrow> (error + bytes \<times> 's ZstdDecoder) option" where
  "decode Z self data =
     (if data = [] then Some (Inr ([], self))
      else (case decompress Z (decompressor self) data of
              Inl msg \<Rightarrow> Some (Inl (ZstdError msg))
            | Inr (part, obj) \<Rightarrow> decode_loop Z obj [part]))"

text \<open>\<open>ZstdDecoder.flush\<close>.\<close>

definition flush :: "'s zstd_api \<Rightarrow> 's ZstdDecoder \<Rightarrow> error + bytes" where
  "flush Z self =
     (let ret = obj_flush Z (decompressor self)
      in if \<not> eof Z (decompressor self)
         then Inl (DecodingError ''Zstandard data is incomplete'')
         else Inr ret)"

subsection \<open>How the transport drives a decoder\<close>

text \<open>The transport calls \<open>decode\<close> once per body chunk, in order, and \<open>flush\<close> once at
  the end of the body. \<open>decode_all\<close> is the sequence of \<open>decode\<close> calls, returning the
  concatenation of their outputs and the decoder they leave; the first exception ends it.
  \<open>read_body\<close> is a whole body read by a fresh decoder: every \<open>decode\<close> output followed
  by the output of \<open>flush\<close>.\<close>

fun decode_all ::
  "'s zstd_api \<Rightarrow> 's ZstdDecoder \<Rightarrow> bytes list \<Rightarrow> (error + bytes \<times> 's ZstdDecoder) option" where
  "decode_all Z self [] = Some (Inr ([], self))"
| "decode_all Z self (c # cs) =
     (case decode Z self c of
        None \<Rightarrow> None
      | Some (Inl e) \<Rightarrow> Some (Inl e)
      | Some (Inr (out, self')) \<Rightarrow>
          (case decode_all Z self' cs of
             None \<Rightarrow> None
           | Some (Inl e) \<Rightarrow> Some (Inl e)
           | Some (Inr (out', self'')) \<Rightarrow> Some (Inr (out @ out', self''))))"

text \<open>The output of earlier calls put in front of the result of the calls that follow.\<close>

definition prepend ::
  "bytes \<Rightarrow> (error + bytes \<times> 's ZstdDecoder) option \<Rightarrow> (error + bytes \<times> 's ZstdDecoder) option" where
  "prepend out r =
     (case r of
        None \<Rightarrow> None
      | Some (Inl e) \<Rightarrow> Some (Inl e)
      | Some (Inr (out', self)) \<Rightarrow> Some (Inr (out @ out', self)))"

definition finish ::
  "'s zstd_api \<Rightarrow> (error + bytes \<times> 's ZstdDecoder) option \<Rightarrow> (error + bytes) option" where
  "finish Z r =
     (case r of
        None \<Rightarrow> None
      | Some (Inl e) \<Rightarrow> Some (Inl e)
      | Some (Inr (out, self)) \<Rightarrow>
          (case flush Z self of Inl e \<Rightarrow> Some (Inl e) | Inr ret \<Rightarrow> Some (Inr (out @ ret))))"

definition read_body :: "'s zstd_api \<Rightarrow> bytes list \<Rightarrow> (error + bytes) option" where
  "read_body Z chunks = finish Z (decode_all Z (init Z) chunks)"

section \<open>A reference decompression object\<close>

text \<open>An instance of the library parameter, for evaluating the decoder on concrete
  streams. It keeps the contract of python-zstandard's \<open>ZstdDecompressionObj\<close> as
  \<open>decompressobj()\<close> creates it (\<open>read_across_frames=False\<close>):
  \<^item> the object decodes one frame; when the frame's end is reached, \<open>eof\<close> becomes true
    and the bytes of the call that lie past the end are kept in \<open>unused_data\<close>;
  \<^item> the object is single use: \<open>decompress\<close> on an object whose frame has ended raises
    \<open>ZstdError("cannot use a decompressobj multiple times")\<close>;
  \<^item> bytes that cannot start a frame raise
    \<open>ZstdError("zstd decompressor error: Unknown frame descriptor")\<close>;
  \<^item> \<open>flush\<close> does nothing and returns \<open>b""\<close>.

  The frame format is a stand-in for Zstandard's: the four magic bytes of a Zstandard
  frame, then blocks of one length byte \<open>n > 0\<close> followed by \<open>n\<close> stored bytes, then the
  end marker, a zero length byte.\<close>

datatype stage = Magic bytes | Header | Body nat | Finished

record zobj =
  stage :: stage
  unused_input :: bytes

definition MAGIC :: bytes where
  "MAGIC = [0x28, 0xB5, 0x2F, 0xFD]"

fun emit :: "byte \<Rightarrow> string + bytes \<times> zobj \<Rightarrow> string + bytes \<times> zobj" where
  "emit b (Inl msg) = Inl msg"
| "emit b (Inr (out, obj)) = Inr (b # out, obj)"

fun feed :: "stage \<Rightarrow> bytes \<Rightarrow> string + bytes \<times> zobj" where
  "feed st [] = Inr ([], \<lparr>stage = st, unused_input = []\<rparr>)"
| "feed st (b # bs) =
     (case st of
        Finished \<Rightarrow> Inr ([], \<lparr>stage = Finished, unused_input = b # bs\<rparr>)
      | Magic [] \<Rightarrow> Inl ''zstd decompressor error: Unknown frame descriptor''
      | Magic (m # ms) \<Rightarrow>
          if b = m then feed (if ms = [] then Header else Magic ms) bs
          else Inl ''zstd decompressor error: Unknown frame descriptor''
      | Header \<Rightarrow> if b = 0 then feed Finished bs else feed (Body (unat b)) bs
      | Body n \<Rightarrow> emit b (feed (if n \<le> 1 then Header else Body (n - 1)) bs))"

definition zobj_decompress :: "zobj \<Rightarrow> bytes \<Rightarrow> string + bytes \<times> zobj" where
  "zobj_decompress obj data =
     (if stage obj = Finished then Inl ''cannot use a decompressobj multiple times''
      else if data = [] then Inr ([], obj)
      else feed (stage obj) data)"

definition zstd :: "zobj zstd_api" where
  "zstd = \<lparr>decompressobj = \<lparr>stage = Magic MAGIC, unused_input = []\<rparr>,
           decompress = zobj_decompress,
           eof = (\<lambda>obj. stage obj = Finished),
           unused_data = unused_input,
           obj_flush = (\<lambda>obj. [])\<rparr>"

text \<open>The matching compressor: one frame per payload.\<close>

function blocks :: "bytes \<Rightarrow> bytes" where
  "blocks p =
     (if p = [] then [0]
      else word_of_nat (min 255 (length p)) # take 255 p @ blocks (drop 255 p))"
  by pat_completeness auto
termination
  by (relation "measure length") auto

declare blocks.simps [simp del]

definition compress :: "bytes \<Rightarrow> bytes" where
  "compress p = MAGIC @ blocks p"

definition bytes_of :: "string \<Rightarrow> bytes" where
  "bytes_of s = map of_char s"

text \<open>A stream cut into chunks of \<open>n\<close> bytes (the last one may be shorter), and into
  chunks of one byte.\<close>

function chunked :: "nat \<Rightarrow> 'a list \<Rightarrow> 'a list list" where
  "chunked n xs = (if n = 0 \<or> xs = [] then [] else take n xs # chunked n (drop n xs))"
  by pat_completeness auto
termination
  by (relation "measure (\<lambda>(n, xs). length xs)") auto

declare chunked.simps [simp del]

definition bytewise :: "'a list \<Rightarrow> 'a list list" where
  "bytewise xs = map (\<lambda>b. [b]) xs"

section \<open>Keyword arguments and dictionaries\<close>

text \<open>The Python values that travel through \<open>request\<close> and \<open>Session.request\<close> as
  header values, keyword arguments and proxy settings. \<open>PObj\<close> is any other object
  (a client timeout object, a file); such an object is truthy.\<close>

datatype pyval =
    PNone
  | PBool bool
  | PInt int
  | PStr string
  | PDict "(string \<times> pyval) list"
  | PObj string

text \<open>A \<open>dict\<close> with string keys, in insertion order.\<close>

type_synonym pydict = "(string \<times> pyval) list"

text \<open>Python's truth value of an object, as \<open>if v\<close> and \<open>or\<close> test it.\<close>

fun truthy :: "pyval \<Rightarrow> bool" where
  "truthy PNone = False"
| "truthy (PBool b) = b"
| "truthy (PInt i) = (i \<noteq> 0)"
| "truthy (PStr s) = (s \<noteq> [])"
| "truthy (PDict d) = (d \<noteq> [])"
| "truthy (PObj x) = True"

definition py_or :: "pyval \<Rightarrow> pyval \<Rightarrow> pyval" where
  "py_or a b = (if truthy a then a else b)"

text \<open>\<open>k in d\<close>, \<open>d.get(k)\<close>, \<open>d[k] = v\<close> (\<open>AList.update\<close>) and \<open>d.update(other)\<close>, which is
  also the value of \<open>d | other\<close>.\<close>

definition dict_contains :: "string \<Rightarrow> pydict \<Rightarrow> bool" where
  "dict_contains k d = (map_of d k \<noteq> None)"

definition dict_get :: "pydict \<Rightarrow> string \<Rightarrow> pyval" where
  "dict_get d k = (case map_of d k of None \<Rightarrow> PNone | Some v \<Rightarrow> v)"

definition dict_update :: "pydict \<Rightarrow> pydict \<Rightarrow> pydict" where
  "dict_update d other = fold (\<lambda>(k, v). AList.update k v) other d"

section \<open>request and Session\<close>

definition DEFAULT_TIMEOUT :: int where
  "DEFAULT_TIMEOUT = 45"

text \<open>The first statement of \<open>request\<close> and of \<open>Session.request\<close>:
  \<open>if "timeout" not in kwargs: kwargs["timeout"] = DEFAULT_TIMEOUT\<close>.\<close>

definition with_timeout :: "pydict \<Rightarrow> pydict" where
  "with_timeout kw =
     (if \<not> dict_contains ''timeout'' kw
      then AList.update ''timeout'' (PInt DEFAULT_TIMEOUT) kw else kw)"

text \<open>\<open>_proxy_kwargs\<close>. The module constant \<open>_HAS_PROXIES_PARAM\<close> is read from the
  installed client library when the module is imported; it is the first argument.\<close>

definition proxy_kwargs :: "bool \<Rightarrow> pyval \<Rightarrow> pydict" where
  "proxy_kwargs HAS_PROXIES_PARAM proxy_or_map =
     (if HAS_PROXIES_PARAM then [(''proxies'', proxy_or_map)]
      else
        let proxy =
          (case proxy_or_map of
             PDict m \<Rightarrow>
               (let proxy =
                  py_or (dict_get m ''all://'')
                    (py_or (dict_get m ''https'')
                      (py_or (dict_get m ''http'')
                        (py_or (dict_get m ''https://'') (dict_get m ''http://''))))
                in if proxy = PNone \<and> truthy proxy_or_map then snd (hd m) else proxy)
           | _ \<Rightarrow> proxy_or_map)
        in [(''proxy'', proxy)])"

text \<open>What the module hands to the client library: the keyword arguments the client was
  built with, and the positional and keyword arguments of its \<open>request\<close> call.\<close>

record issued =
  client_kwargs :: pydict
  args :: "pyval list"
  kwargs :: pydict

text \<open>The module-level \<open>request\<close>.\<close>

definition request :: "bool \<Rightarrow> pyval \<Rightarrow> pyval \<Rightarrow> pyval \<Rightarrow> pyval \<Rightarrow> pydict \<Rightarrow> issued" where
  "request HAS_PROXIES_PARAM method url proxy proxies kw =
     (let kw = with_timeout kw;
          ckw = [(''verify'', PBool False), (''follow_redirects'', PBool True)];
          ckw = dict_update ckw
                  (proxy_kwargs HAS_PROXIES_PARAM (if proxies \<noteq> PNone then proxies else proxy))
      in \<lparr>client_kwargs = ckw, args = [method, url], kwargs = kw\<rparr>)"

datatype ClientState = UNOPENED | OPENED | CLOSED

record client =
  built_with :: pydict
  state :: ClientState

record session =
  headers :: pydict
  verify :: bool
  client' :: "client option"
  proxies' :: pyval

text \<open>\<open>Session.__init__\<close>, \<open>Session._set_client\<close> and the setter of
  \<open>Session.proxies\<close>.\<close>

definition Session :: session where
  "Session = \<lparr>headers = [], verify = False, client' = None, proxies' = PNone\<rparr>"

definition set_client :: "bool \<Rightarrow> session \<Rightarrow> session" where
  "set_client HAS_PROXIES_PARAM self =
     (let ckw = [(''verify'', PBool (verify self)), (''follow_redirects'', PBool True)];
          ckw = dict_update ckw (proxy_kwargs HAS_PROXIES_PARAM (proxies' self))
      in self\<lparr>client' := Some \<lparr>built_with = ckw, state = UNOPENED\<rparr>\<rparr>)"

definition set_proxies :: "bool \<Rightarrow> session \<Rightarrow> pyval \<Rightarrow> session" where
  "set_proxies HAS_PROXIES_PARAM self p = set_client HAS_PROXIES_PARAM (self\<lparr>proxies' := p\<rparr>)"

text \<open>The call \<open>self._client.request(*args, headers=headers, **kwargs)\<close> that ends
  \<open>Session.request\<close>. The \<open>request\<close> method of the client has no parameter named
  \<open>proxies\<close> or \<open>proxy\<close>: with either name among the keyword arguments the call
  raises \<open>TypeError\<close> and no request is issued.\<close>

definition client_request :: "client \<Rightarrow> pyval list \<Rightarrow> pydict \<Rightarrow> pydict \<Rightarrow> error + issued" where
  "client_request c as hdrs kw =
     (if dict_contains ''proxies'' kw \<or> dict_contains ''proxy'' kw then Inl TypeError
      else Inr \<lparr>client_kwargs = built_with c, args = as,
                kwargs = (''headers'', PDict hdrs) # kw\<rparr>)"

text \<open>\<open>Session.request\<close>. With no client (\<open>self._client\<close> is \<open>None\<close> until the proxies
  are set) reading \<open>self._client._state\<close> raises \<open>AttributeError\<close>; a truthy \<open>headers\<close>
  argument that is no \<open>dict\<close> makes \<open>self.headers | headers\<close> raise \<open>TypeError\<close>; a
  \<open>proxies\<close> argument other than \<open>None\<close> is put among the keyword arguments, where it
  makes the call of the client raise \<open>TypeError\<close>. The result is the request issued and
  the session it leaves.\<close>

definition session_request ::
  "bool \<Rightarrow> session \<Rightarrow> pyval list \<Rightarrow> pyval \<Rightarrow> pyval \<Rightarrow> pydict \<Rightarrow> error + issued \<times> session" where
  "session_request HAS_PROXIES_PARAM self as hdrs proxies kw =
     (let kw = with_timeout kw
      in case client' self of
           None \<Rightarrow> Inl AttributeError
         | Some c \<Rightarrow>
             (let c = (if state c = UNOPENED then c\<lparr>state := OPENED\<rparr> else c)
              in case py_or hdrs (PDict []) of
                   PDict h \<Rightarrow>
                     (let hdrs = dict_update (headers self) h;
                          hdrs = filter (\<lambda>(k, v). v \<noteq> PNone) hdrs;
                          kw = filter (\<lambda>(k, v). truthy v) kw;
                          kw = (if proxies \<noteq> PNone
                                then dict_update kw (proxy_kwargs HAS_PROXIES_PARAM proxies)
                                else kw)
                      in case client_request c as hdrs kw of
                           Inl e \<Rightarrow> Inl e
                         | Inr call \<Rightarrow> Inr (call, self\<lparr>client' := Some c\<rparr>))
                 | _ \<Rightarrow> Inl TypeError))"

text \<open>\<open>Session.get\<close> and \<open>Session.post\<close>.\<close>

definition session_get ::
  "bool \<Rightarrow> session \<Rightarrow> pyval list \<Rightarrow> pyval \<Rightarrow> pyval \<Rightarrow> pydict \<Rightarrow> error + issued \<times> session" where
  "session_get HAS_PROXIES_PARAM self as hdrs proxies kw =
     session_request HAS_PROXIES_PARAM self (PStr ''get'' # as) hdrs proxies kw"

definition session_post ::
  "bool \<Rightarrow> session \<Rightarrow> pyval list \<Rightarrow> pyval \<Rightarrow> pyval \<Rightarrow> pydict \<Rightarrow> error + issued \<times> session" where
  "session_post HAS_PROXIES_PARAM self as hdrs proxies kw =
     session_request HAS_PROXIES_PARAM self (PStr ''post'' # as) hdrs proxies kw"

section \<open>The reference object decodes what the compressor writes\<close>

lemma byte_of_nat: "n \<le> 255 \<Longrightarrow> unat (word_of_nat n :: byte) = n"
  by (simp add: unat_of_nat take_bit_nat_eq_self)

lemma byte_of_nat_neq0: "0 < n \<Longrightarrow> n \<le> 255 \<Longrightarrow> (word_of_nat n :: byte) \<noteq> 0"
  using byte_of_nat [of n] by (auto simp del: unsigned_of_nat)

lemma emit_case:
  "emit b r = (case r of Inl msg \<Rightarrow> Inl msg | Inr (out, obj) \<Rightarrow> Inr (b # out, obj))"
  by (cases r) auto

lemma feed_Finished [simp]: "feed Finished bs = Inr ([], \<lparr>stage = Finished, unused_input = bs\<rparr>)"
  by (cases bs) auto

lemma feed_unused:
  "feed st bs = Inr (out, s) \<Longrightarrow> stage s \<noteq> Finished \<Longrightarrow> unused_input s = []"
proof (induction bs arbitrary: st out)
  case Nil
  then show ?case by auto
next
  case (Cons b bs)
  then show ?case
    by (auto simp: emit_case split: stage.splits list.splits if_splits sum.splits)
qed

lemma feed_append:
  "feed st (a @ b) =
     (case feed st a of
        Inl msg \<Rightarrow> Inl msg
      | Inr (out1, s1) \<Rightarrow>
          if stage s1 = Finished then Inr (out1, s1\<lparr>unused_input := unused_input s1 @ b\<rparr>)
          else (case feed (stage s1) b of
                  Inl msg \<Rightarrow> Inl msg
                | Inr (out2, s2) \<Rightarrow> Inr (out1 @ out2, s2)))"
proof (induction a arbitrary: st)
  case Nil
  then show ?case by (auto split: sum.splits)
next
  case (Cons c cs)
  show ?case
  proof (cases st)
    case (Magic ms)
    then show ?thesis using Cons by (cases ms) auto
  next
    case Header
    then show ?thesis using Cons by auto
  next
    case (Body n)
    then show ?thesis using Cons [of "if n \<le> 1 then Header else Body (n - 1)"]
      by (simp add: emit_case split: sum.splits)
  next
    case Finished
    then show ?thesis by simp
  qed
qed

lemma feed_progress:
  "feed st bs = Inr (out, s) \<Longrightarrow> st \<noteq> Finished \<Longrightarrow> bs \<noteq> [] \<Longrightarrow>
   length (unused_input s) < length bs"
proof (induction bs arbitrary: st out)
  case Nil
  then show ?case by simp
next
  case (Cons b bs)
  have le: "\<And>st' out'. feed st' bs = Inr (out', s) \<Longrightarrow> length (unused_input s) \<le> length bs"
  proof -
    fix st' out' assume f: "feed st' bs = Inr (out', s)"
    show "length (unused_input s) \<le> length bs"
    proof (cases "st' = Finished \<or> bs = []")
      case True
      with f show ?thesis by auto
    next
      case False
      with Cons.IH [OF f] show ?thesis by simp
    qed
  qed
  show ?case
  proof (cases st)
    case (Magic ms)
    with Cons.prems le show ?thesis
      by (cases ms) (auto split: if_splits simp: less_Suc_eq_le)
  next
    case Header
    with Cons.prems le [of "Body (unat b)"] le [of Finished] show ?thesis
      by (auto split: if_splits simp: less_Suc_eq_le simp del: feed_Finished)
  next
    case (Body n)
    with Cons.prems le [of "if n \<le> 1 then Header else Body (n - 1)"] show ?thesis
      by (auto simp: emit_case less_Suc_eq_le split: sum.splits)
  next
    case Finished
    with Cons.prems show ?thesis by simp
  qed
qed

lemma feed_Body_payload:
  "0 < length xs \<Longrightarrow> n = length xs \<Longrightarrow>
   feed (Body n) (xs @ ys) =
     (case feed Header ys of Inl msg \<Rightarrow> Inl msg | Inr (out, s) \<Rightarrow> Inr (xs @ out, s))"
proof (induction xs arbitrary: n)
  case Nil
  then show ?case by simp
next
  case (Cons x xs)
  show ?case
  proof (cases "xs = []")
    case True
    with Cons.prems show ?thesis by (simp add: emit_case split: sum.splits)
  next
    case False
    then have "feed (Body (length xs)) (xs @ ys) =
      (case feed Header ys of Inl msg \<Rightarrow> Inl msg | Inr (out, s) \<Rightarrow> Inr (xs @ out, s))"
      using Cons.IH [of "length xs"] by simp
    moreover have "\<not> length (x # xs) \<le> 1" using False by (cases xs) auto
    ultimately show ?thesis using Cons.prems
      by (simp add: emit_case split: sum.splits)
  qed
qed

lemma blocks_Nil: "blocks [] = [0]"
  by (subst blocks.simps) simp

lemma blocks_Cons:
  "p \<noteq> [] \<Longrightarrow> blocks p = word_of_nat (min 255 (length p)) # take 255 p @ blocks (drop 255 p)"
  by (subst blocks.simps) (simp only: if_False)

lemma feed_Header_block:
  "0 < n \<Longrightarrow> n \<le> 255 \<Longrightarrow> feed Header ((word_of_nat n :: byte) # bs) = feed (Body n) bs"
  using byte_of_nat [of n] byte_of_nat_neq0 [of n] by (simp del: unsigned_of_nat)

lemma feed_blocks_step:
  assumes ne: "p \<noteq> []"
    and IH: "feed Header (blocks (drop 255 p) @ rest) =
             Inr (drop 255 p, \<lparr>stage = Finished, unused_input = rest\<rparr>)"
  shows "feed Header (blocks p @ rest) = Inr (p, \<lparr>stage = Finished, unused_input = rest\<rparr>)"
proof -
  have n: "0 < min 255 (length p)" "min 255 (length p) \<le> 255" using ne by auto
  have len: "length (take 255 p) = min 255 (length p)" by simp
  have pos: "0 < length (take 255 p)" using n by simp
  have "feed Header (blocks p @ rest) =
        feed (Body (min 255 (length p))) (take 255 p @ (blocks (drop 255 p) @ rest))"
    by (simp only: blocks_Cons [OF ne] append_Cons feed_Header_block [OF n] append_assoc)
  also have "\<dots> = Inr (take 255 p @ drop 255 p, \<lparr>stage = Finished, unused_input = rest\<rparr>)"
    using feed_Body_payload [OF pos len [symmetric], of "blocks (drop 255 p) @ rest"]
    by (simp add: IH)
  finally show ?thesis by simp
qed

lemma feed_blocks:
  "feed Header (blocks p @ rest) = Inr (p, \<lparr>stage = Finished, unused_input = rest\<rparr>)"
proof (induction p rule: length_induct)
  case (1 p)
  show ?case
  proof (cases "p = []")
    case True
    then show ?thesis by (simp add: blocks_Nil)
  next
    case False
    then have "length (drop 255 p) < length p" by (cases p) auto
    with 1 have "feed Header (blocks (drop 255 p) @ rest) =
             Inr (drop 255 p, \<lparr>stage = Finished, unused_input = rest\<rparr>)" by blast
    with False show ?thesis by (rule feed_blocks_step)
  qed
qed

lemma feed_compress:
  "feed (Magic MAGIC) (compress p @ rest) = Inr (p, \<lparr>stage = Finished, unused_input = rest\<rparr>)"
  using feed_blocks [of p rest] by (simp add: compress_def MAGIC_def)

lemma compress_not_Nil: "compress p \<noteq> []"
  by (simp add: compress_def MAGIC_def)

lemma feed_strict_prefix:
  assumes "strict_prefix c (compress p)"
  shows "\<exists>out s. feed (Magic MAGIC) c = Inr (out, s) \<and> stage s \<noteq> Finished \<and> prefix out p"
proof -
  from assms obtain r where r: "compress p = c @ r" "r \<noteq> []"
    by (auto simp: strict_prefix_def prefix_def)
  have whole: "feed (Magic MAGIC) (c @ r) = Inr (p, \<lparr>stage = Finished, unused_input = []\<rparr>)"
    using feed_compress [of p "[]"] r(1) by simp
  then obtain out s where c: "feed (Magic MAGIC) c = Inr (out, s)"
    by (cases "feed (Magic MAGIC) c") (auto simp: feed_append)
  have "stage s \<noteq> Finished"
  proof
    assume "stage s = Finished"
    with whole c have "s\<lparr>unused_input := unused_input s @ r\<rparr> = \<lparr>stage = Finished, unused_input = []\<rparr>"
      by (simp add: feed_append)
    then have "unused_input (s\<lparr>unused_input := unused_input s @ r\<rparr>) = []" by simp
    with r(2) show False by simp
  qed
  moreover from this whole c have "prefix out p"
    by (auto simp: feed_append split: sum.splits)
  ultimately show ?thesis using c by blast
qed

section \<open>The decoder, whatever the library\<close>

lemma decode_loop_result:
  assumes "decode_loop Z obj parts = Some y"
  shows "case y of
           Inl e \<Rightarrow> \<exists>msg. e = ZstdError msg
         | Inr (out, self') \<Rightarrow>
             \<not> (eof Z (decompressor self') \<and> unused_data Z (decompressor self') \<noteq> [])"
  using assms
proof (induction rule: decode_loop.raw_induct [rotated 1, consumes 1, case_names step])
  case (step loop Z obj parts y)
  show ?case
  proof (cases "eof Z obj \<and> unused_data Z obj \<noteq> []")
    case True
    show ?thesis
    proof (cases "decompress Z (decompressobj Z) (unused_data Z obj)")
      case (Inl msg)
      with True step(2) show ?thesis by auto
    next
      case (Inr r)
      with True step(2) have "loop Z (snd r) (parts @ [fst r]) = Some y"
        by (cases r) auto
      then show ?thesis by (rule step(1))
    qed
  next
    case False
    with step(2) show ?thesis by auto
  qed
qed

lemma decode_loop_post:
  assumes "decode_loop Z obj parts = Some (Inr (out, self'))"
  shows "\<not> (eof Z (decompressor self') \<and> unused_data Z (decompressor self') \<noteq> [])"
  using decode_loop_result [OF assms] by simp

lemma decode_loop_done:
  "\<not> (eof Z obj \<and> unused_data Z obj \<noteq> []) \<Longrightarrow>
   decode_loop Z obj parts = Some (Inr (concat parts, \<lparr>decompressor = obj\<rparr>))"
  by (subst decode_loop.simps) auto

lemma decode_loop_again:
  "eof Z obj \<Longrightarrow> unused_data Z obj \<noteq> [] \<Longrightarrow>
   decode_loop Z obj parts =
     (case decompress Z (decompressobj Z) (unused_data Z obj) of
        Inl msg \<Rightarrow> Some (Inl (ZstdError msg))
      | Inr (part, obj') \<Rightarrow> decode_loop Z obj' (parts @ [part]))"
  by (subst decode_loop.simps) auto

lemma decode_Nil: "decode Z self [] = Some (Inr ([], self))"
  by (simp add: decode_def)

lemma decode_post:
  assumes "decode Z self data = Some (Inr (out, self'))" and "data \<noteq> []"
  shows "\<not> (eof Z (decompressor self') \<and> unused_data Z (decompressor self') \<noteq> [])"
  using assms decode_loop_post [of Z _ _ out self']
  by (auto simp: decode_def split: sum.splits)

lemma decode_inv:
  assumes "decode Z self data = Some (Inr (out, self'))"
    and "\<not> (eof Z (decompressor self) \<and> unused_data Z (decompressor self) \<noteq> [])"
  shows "\<not> (eof Z (decompressor self') \<and> unused_data Z (decompressor self') \<noteq> [])"
proof (cases "data = []")
  case True
  with assms show ?thesis by (simp add: decode_Nil)
next
  case False
  with assms(1) show ?thesis by (rule decode_post)
qed

lemma decode_all_inv:
  assumes "decode_all Z self chunks = Some (Inr (out, self'))"
    and "\<not> (eof Z (decompressor self) \<and> unused_data Z (decompressor self) \<noteq> [])"
  shows "\<not> (eof Z (decompressor self') \<and> unused_data Z (decompressor self') \<noteq> [])"
  using assms
proof (induction chunks arbitrary: self out)
  case Nil
  then show ?case by simp
next
  case (Cons c cs)
  from Cons.prems(1) obtain o1 s1 o2 where
    d: "decode Z self c = Some (Inr (o1, s1))" and r: "decode_all Z s1 cs = Some (Inr (o2, self'))"
    by (auto split: option.splits sum.splits)
  from decode_inv [OF d Cons.prems(2)] Cons.IH [OF r] show ?case by blast
qed

lemma decode_all_append:
  "decode_all Z self (xs @ ys) =
     (case decode_all Z self xs of
        None \<Rightarrow> None
      | Some (Inl e) \<Rightarrow> Some (Inl e)
      | Some (Inr (out, self')) \<Rightarrow>
          (case decode_all Z self' ys of
             None \<Rightarrow> None
           | Some (Inl e) \<Rightarrow> Some (Inl e)
           | Some (Inr (out', self'')) \<Rightarrow> Some (Inr (out @ out', self''))))"
  by (induction xs arbitrary: self) (auto split: option.splits sum.splits)

lemma decode_all_skip_empty: "decode_all Z self ([] # cs) = decode_all Z self cs"
  by (auto simp: decode_Nil split: option.splits sum.splits)

lemma decode_all_empty_chunks:
  "concat cs = [] \<Longrightarrow> decode_all Z self cs = Some (Inr ([], self))"
  by (induction cs) (auto simp: decode_Nil)

section \<open>The decoder on the reference object\<close>

lemma zstd_fields [simp]:
  "decompressobj zstd = \<lparr>stage = Magic MAGIC, unused_input = []\<rparr>"
  "decompress zstd = zobj_decompress"
  "eof zstd obj = (stage obj = Finished)"
  "unused_data zstd = unused_input"
  "obj_flush zstd obj = []"
  by (simp_all add: zstd_def)

lemma decode_zstd_open:
  assumes "stage obj \<noteq> Finished" and "unused_input obj = []"
    and "feed (stage obj) c = Inr (out, s)" and "stage s \<noteq> Finished"
  shows "decode zstd \<lparr>decompressor = obj\<rparr> c = Some (Inr (out, \<lparr>decompressor = s\<rparr>))"
proof (cases "c = []")
  case True
  with assms show ?thesis by (cases obj) (auto simp: decode_Nil)
next
  case False
  with assms show ?thesis
    by (simp add: decode_def zobj_decompress_def decode_loop_done)
qed

lemma decode_all_zstd_open:
  assumes "stage obj \<noteq> Finished" and "unused_input obj = []"
    and "feed (stage obj) (concat cs) = Inr (out, s)" and "stage s \<noteq> Finished"
  shows "decode_all zstd \<lparr>decompressor = obj\<rparr> cs = Some (Inr (out, \<lparr>decompressor = s\<rparr>))"
  using assms
proof (induction cs arbitrary: obj out)
  case Nil
  then show ?case by auto
next
  case (Cons c cs)
  from Cons.prems(3) have app: "feed (stage obj) (c @ concat cs) = Inr (out, s)" by simp
  then obtain o1 s1 where c: "feed (stage obj) c = Inr (o1, s1)"
    by (cases "feed (stage obj) c") (auto simp: feed_append)
  have open1: "stage s1 \<noteq> Finished"
    using app c Cons.prems(4) by (auto simp: feed_append split: if_splits)
  then obtain o2 where r: "feed (stage s1) (concat cs) = Inr (o2, s)" and out: "out = o1 @ o2"
    using app c by (auto simp: feed_append split: sum.splits)
  have u1: "unused_input s1 = []" using c open1 by (rule feed_unused)
  have "decode zstd \<lparr>decompressor = obj\<rparr> c = Some (Inr (o1, \<lparr>decompressor = s1\<rparr>))"
    using Cons.prems(1,2) c open1 by (rule decode_zstd_open)
  moreover have "decode_all zstd \<lparr>decompressor = s1\<rparr> cs = Some (Inr (o2, \<lparr>decompressor = s\<rparr>))"
    using open1 u1 r Cons.prems(4) by (rule Cons.IH)
  ultimately show ?case using out by simp
qed


lemma read_body_strict_prefix:
  assumes "strict_prefix (concat chunks) (compress p)"
  shows "read_body zstd chunks = Some (Inl (DecodingError ''Zstandard data is incomplete''))"
proof -
  from feed_strict_prefix [OF assms] obtain out s where
    f: "feed (Magic MAGIC) (concat chunks) = Inr (out, s)" and s: "stage s \<noteq> Finished"
    by blast
  have "decode_all zstd \<lparr>decompressor = \<lparr>stage = Magic MAGIC, unused_input = []\<rparr>\<rparr> chunks =
        Some (Inr (out, \<lparr>decompressor = s\<rparr>))"
    using f s by (intro decode_all_zstd_open) simp_all
  then show ?thesis using s
    by (simp add: read_body_def init_def finish_def flush_def)
qed

lemma decode_zstd_closing:
  assumes "stage obj \<noteq> Finished"
    and "feed (stage obj) c = Inr (out, s)" and "stage s = Finished" and "unused_input s = []"
  shows "decode zstd \<lparr>decompressor = obj\<rparr> c = Some (Inr (out, \<lparr>decompressor = s\<rparr>))"
proof -
  have "c \<noteq> []" using assms by auto
  with assms show ?thesis
    by (simp add: decode_def zobj_decompress_def decode_loop_done)
qed

lemma decode_all_zstd_frame:
  assumes "stage obj \<noteq> Finished" and "unused_input obj = []"
    and "feed (stage obj) (concat cs) = Inr (out, s)"
    and "stage s = Finished" and "unused_input s = []"
  shows "decode_all zstd \<lparr>decompressor = obj\<rparr> cs = Some (Inr (out, \<lparr>decompressor = s\<rparr>))"
  using assms
proof (induction cs arbitrary: obj out)
  case Nil
  then show ?case by auto
next
  case (Cons c cs)
  from Cons.prems(3) have app: "feed (stage obj) (c @ concat cs) = Inr (out, s)" by simp
  then obtain o1 s1 where c: "feed (stage obj) c = Inr (o1, s1)"
    by (cases "feed (stage obj) c") (auto simp: feed_append)
  show ?case
  proof (cases "stage s1 = Finished")
    case True
    with app c have s: "s = s1\<lparr>unused_input := unused_input s1 @ concat cs\<rparr>" and out: "out = o1"
      by (auto simp: feed_append)
    from s Cons.prems(5) have u: "unused_input s1 = []" and rest: "concat cs = []" by auto
    from s u rest have "s = s1" by simp
    moreover have "decode zstd \<lparr>decompressor = obj\<rparr> c = Some (Inr (o1, \<lparr>decompressor = s1\<rparr>))"
      using Cons.prems(1) c True u by (rule decode_zstd_closing)
    moreover have "decode_all zstd \<lparr>decompressor = s1\<rparr> cs = Some (Inr ([], \<lparr>decompressor = s1\<rparr>))"
      using rest by (rule decode_all_empty_chunks)
    ultimately show ?thesis using out by simp
  next
    case False
    then obtain o2 where r: "feed (stage s1) (concat cs) = Inr (o2, s)" and out: "out = o1 @ o2"
      using app c by (auto simp: feed_append split: sum.splits)
    have u1: "unused_input s1 = []" using c False by (rule feed_unused)
    have "decode zstd \<lparr>decompressor = obj\<rparr> c = Some (Inr (o1, \<lparr>decompressor = s1\<rparr>))"
      using Cons.prems(1,2) c False by (rule decode_zstd_open)
    moreover have "decode_all zstd \<lparr>decompressor = s1\<rparr> cs = Some (Inr (o2, \<lparr>decompressor = s\<rparr>))"
      using False u1 r Cons.prems(4,5) by (rule Cons.IH)
    ultimately show ?thesis using out by simp
  qed
qed

lemma decode_all_zstd_single_frame:
  assumes "concat chunks = compress p"
  shows "decode_all zstd (init zstd) chunks =
         Some (Inr (p, \<lparr>decompressor = \<lparr>stage = Finished, unused_input = []\<rparr>\<rparr>))"
proof -
  have "feed (Magic MAGIC) (concat chunks) = Inr (p, \<lparr>stage = Finished, unused_input = []\<rparr>)"
    using feed_compress [of p "[]"] assms by simp
  then show ?thesis
    unfolding init_def zstd_fields by (intro decode_all_zstd_frame) simp_all
qed

lemma read_body_zstd_single_frame:
  assumes "concat chunks = compress p"
  shows "read_body zstd chunks = Some (Inr p)"
  using decode_all_zstd_single_frame [OF assms]
  by (simp add: read_body_def finish_def flush_def)

lemma decode_zstd_finished:
  "c \<noteq> [] \<Longrightarrow> stage obj = Finished \<Longrightarrow>
   decode zstd \<lparr>decompressor = obj\<rparr> c =
     Some (Inl (ZstdError ''cannot use a decompressobj multiple times''))"
  by (simp add: decode_def zobj_decompress_def)

lemma decode_all_zstd_after_frame:
  assumes "concat xs = compress p" and "concat ys \<noteq> []"
  shows "decode_all zstd (init zstd) (xs @ ys) =
         Some (Inl (ZstdError ''cannot use a decompressobj multiple times''))"
proof -
  let ?fin = "\<lparr>decompressor = \<lparr>stage = Finished, unused_input = []\<rparr>\<rparr>"
  have "decode_all zstd ?fin ys = Some (Inl (ZstdError ''cannot use a decompressobj multiple times''))"
    using assms(2)
  proof (induction ys)
    case Nil
    then show ?case by simp
  next
    case (Cons y ys)
    show ?case
    proof (cases "y = []")
      case True
      with Cons show ?thesis by (simp add: decode_Nil)
    next
      case False
      then show ?thesis by (simp add: decode_zstd_finished)
    qed
  qed
  then show ?thesis
    by (simp add: decode_all_append decode_all_zstd_single_frame [OF assms(1)])
qed

lemma decode_loop_zstd_frames:
  "decode_loop zstd \<lparr>stage = Finished, unused_input = concat (map compress ps)\<rparr> parts =
     Some (Inr (concat parts @ concat ps, \<lparr>decompressor = \<lparr>stage = Finished, unused_input = []\<rparr>\<rparr>))"
proof (induction ps arbitrary: parts)
  case Nil
  then show ?case by (simp add: decode_loop_done)
next
  case (Cons p ps)
  have "decode_loop zstd \<lparr>stage = Finished, unused_input = concat (map compress (p # ps))\<rparr> parts =
        decode_loop zstd \<lparr>stage = Finished, unused_input = concat (map compress ps)\<rparr> (parts @ [p])"
    using feed_compress [of p "concat (map compress ps)"]
    by (subst decode_loop_again) (simp_all add: compress_not_Nil zobj_decompress_def)
  then show ?case by (simp add: Cons.IH)
qed

lemma decode_zstd_frames:
  "decode zstd (init zstd) (concat (map compress (p # ps))) =
     Some (Inr (concat (p # ps), \<lparr>decompressor = \<lparr>stage = Finished, unused_input = []\<rparr>\<rparr>))"
proof -
  have "decode zstd (init zstd) (concat (map compress (p # ps))) =
        decode_loop zstd \<lparr>stage = Finished, unused_input = concat (map compress ps)\<rparr> [p]"
    using feed_compress [of p "concat (map compress ps)"]
    by (simp add: decode_def init_def zobj_decompress_def compress_not_Nil)
  then show ?thesis by (simp add: decode_loop_zstd_frames)
qed

lemma read_body_zstd_frames:
  "read_body zstd [concat (map compress (p # ps))] = Some (Inr (concat (p # ps)))"
  unfolding read_body_def decode_all.simps decode_zstd_frames
  by (simp add: finish_def flush_def)

lemma concat_bytewise [simp]: "concat (bytewise xs) = xs"
  by (induction xs) (simp_all add: bytewise_def)

subsection \<open>Chunks that end inside a frame\<close>

lemma prepend_simps [simp]:
  "prepend out None = None"
  "prepend out (Some (Inl e)) = Some (Inl e)"
  "prepend out (Some (Inr (out', self))) = Some (Inr (out @ out', self))"
  by (simp_all add: prepend_def)

lemma prepend_Nil [simp]: "prepend [] r = r"
  by (auto simp: prepend_def split: option.splits sum.splits)

lemma prepend_prepend [simp]: "prepend a (prepend b r) = prepend (a @ b) r"
  by (auto simp: prepend_def split: option.splits sum.splits)

lemma prepend_eq_Inr:
  "prepend a r = Some (Inr (out, self)) \<longleftrightarrow> (\<exists>out'. r = Some (Inr (out', self)) \<and> out = a @ out')"
  by (auto simp: prepend_def split: option.splits sum.splits)

lemma decode_loop_zstd_parts:
  "decode_loop zstd obj parts = prepend (concat parts) (decode_loop zstd obj [])"
proof (induction "length (unused_input obj)" arbitrary: obj parts rule: less_induct)
  case less
  show ?case
  proof (cases "stage obj = Finished \<and> unused_input obj \<noteq> []")
    case False
    then show ?thesis by (simp add: decode_loop_done)
  next
    case True
    show ?thesis
    proof (cases "feed (Magic MAGIC) (unused_input obj)")
      case (Inl msg)
      with True show ?thesis by (simp add: decode_loop_again zobj_decompress_def)
    next
      case (Inr r)
      obtain part obj' where r: "r = (part, obj')" by (cases r)
      from Inr r True have lt: "length (unused_input obj') < length (unused_input obj)"
        by (auto dest: feed_progress)
      have "decode_loop zstd obj parts = decode_loop zstd obj' (parts @ [part])"
        using True Inr r by (simp add: decode_loop_again zobj_decompress_def)
      also have "\<dots> = prepend (concat parts @ part) (decode_loop zstd obj' [])"
        using less [OF lt, of "parts @ [part]"] by simp
      also have "\<dots> = prepend (concat parts) (decode_loop zstd obj' [part])"
        using less [OF lt, of "[part]"] by simp
      also have "decode_loop zstd obj' [part] = decode_loop zstd obj []"
        using True Inr r by (simp add: decode_loop_again zobj_decompress_def)
      finally show ?thesis .
    qed
  qed
qed

lemma decode_loop_zstd_restart:
  assumes "u \<noteq> []"
  shows "decode_loop zstd \<lparr>stage = Finished, unused_input = u\<rparr> parts =
         prepend (concat parts) (decode zstd (init zstd) u)"
proof -
  have "decode_loop zstd \<lparr>stage = Finished, unused_input = u\<rparr> [] = decode zstd (init zstd) u"
    using assms
    by (auto simp: decode_loop_again decode_def init_def split: sum.splits)
  then show ?thesis
    using decode_loop_zstd_parts [of "\<lparr>stage = Finished, unused_input = u\<rparr>" parts] by simp
qed

lemma decode_zstd_unfold:
  assumes "stage obj \<noteq> Finished" and "a \<noteq> []"
  shows "decode zstd \<lparr>decompressor = obj\<rparr> a =
     (case feed (stage obj) a of
        Inl msg \<Rightarrow> Some (Inl (ZstdError msg))
      | Inr (out, s) \<Rightarrow>
          if stage s = Finished \<and> unused_input s \<noteq> []
          then prepend out (decode zstd (init zstd) (unused_input s))
          else Some (Inr (out, \<lparr>decompressor = s\<rparr>)))"
proof (cases "feed (stage obj) a")
  case (Inl msg)
  with assms show ?thesis by (simp add: decode_def zobj_decompress_def)
next
  case (Inr r)
  obtain out s where r: "r = (out, s)" by (cases r)
  show ?thesis
  proof (cases "stage s = Finished \<and> unused_input s \<noteq> []")
    case False
    have "decode zstd \<lparr>decompressor = obj\<rparr> a = Some (Inr (out, \<lparr>decompressor = s\<rparr>))"
      using assms Inr r False by (simp add: decode_def zobj_decompress_def decode_loop_done)
    then show ?thesis
      unfolding Inr r by (simp only: sum.case prod.case if_not_P [OF False])
  next
    case True
    then have s: "s = \<lparr>stage = Finished, unused_input = unused_input s\<rparr>" by (cases s) simp
    have "decode zstd \<lparr>decompressor = obj\<rparr> a = decode_loop zstd s [out]"
      using assms Inr r by (simp add: decode_def zobj_decompress_def)
    also have "\<dots> = prepend out (decode zstd (init zstd) (unused_input s))"
      using decode_loop_zstd_restart [of "unused_input s" "[out]"] True s by simp
    finally show ?thesis
      unfolding Inr r by (simp only: sum.case prod.case if_P [OF True])
  qed
qed

lemma decode_zstd_split:
  assumes "stage (decompressor d) \<noteq> Finished"
    and "decode zstd d a = Some (Inr (out1, d1))"
    and "stage (decompressor d1) \<noteq> Finished"
  shows "decode zstd d (a @ x) = prepend out1 (decode zstd d1 x)"
  using assms
proof (induction "length a" arbitrary: a d out1 rule: less_induct)
  case less
  obtain obj where d: "d = \<lparr>decompressor = obj\<rparr>" by (cases d) simp
  with less.prems(1) have op: "stage obj \<noteq> Finished" by simp
  show ?case
  proof (cases "a = []")
    case True
    with less.prems(2) show ?thesis by (simp add: decode_Nil)
  next
    case False
    note unf = decode_zstd_unfold [OF op False]
    from less.prems(2) d unf obtain o' s' where f: "feed (stage obj) a = Inr (o', s')"
      by (cases "feed (stage obj) a") auto
    have ax: "a @ x \<noteq> []" using False by simp
    show ?thesis
    proof (cases "stage s' = Finished")
      case fin: True
      have u: "unused_input s' \<noteq> []"
      proof
        assume "unused_input s' = []"
        with less.prems(2) d unf f fin have "d1 = \<lparr>decompressor = s'\<rparr>" by simp
        with less.prems(3) fin show False by simp
      qed
      from less.prems(2) d unf f fin u
      have "prepend o' (decode zstd (init zstd) (unused_input s')) = Some (Inr (out1, d1))"
        by simp
      then obtain o2 where r: "decode zstd (init zstd) (unused_input s') = Some (Inr (o2, d1))"
        and out1: "out1 = o' @ o2"
        by (auto simp: prepend_eq_Inr)
      have lt: "length (unused_input s') < length a"
        using f op False by (rule feed_progress)
      have "decode zstd (init zstd) (unused_input s' @ x) = prepend o2 (decode zstd d1 x)"
        using lt _ r less.prems(3) by (rule less.hyps) (simp add: init_def)
      moreover have "feed (stage obj) (a @ x) = Inr (o', s'\<lparr>unused_input := unused_input s' @ x\<rparr>)"
        using f fin by (simp add: feed_append)
      ultimately show ?thesis
        using fin u out1 unfolding d decode_zstd_unfold [OF op ax] by simp
    next
      case open1: False
      from less.prems(2) d unf f open1 have d1: "d1 = \<lparr>decompressor = s'\<rparr>" and out1: "out1 = o'"
        by simp_all
      have u: "unused_input s' = []" using f open1 by (rule feed_unused)
      show ?thesis
      proof (cases "x = []")
        case True
        with less.prems(2) show ?thesis by (simp add: decode_Nil)
      next
        case xne: False
        have fx: "feed (stage obj) (a @ x) =
            (case feed (stage s') x of
               Inl msg \<Rightarrow> Inl msg | Inr (out2, s2) \<Rightarrow> Inr (o' @ out2, s2))"
          using f open1 by (simp add: feed_append)
        show ?thesis
          unfolding d d1 out1 decode_zstd_unfold [OF op ax]
            decode_zstd_unfold [of s' x, OF open1 xne] fx
          by (auto split: sum.splits)
      qed
    qed
  qed
qed

lemma decode_all_zstd_concat:
  assumes "\<forall>k<length cs. concat (drop k cs) = [] \<or>
      (\<exists>out d'. decode zstd d (concat (take k cs)) = Some (Inr (out, d')) \<and>
         stage (decompressor d') \<noteq> Finished)"
  shows "decode_all zstd d cs = decode zstd d (concat cs)"
  using assms
proof (induction cs arbitrary: d)
  case Nil
  then show ?case by (simp add: decode_Nil)
next
  case (Cons c cs)
  show ?case
  proof (cases "concat (c # cs) = []")
    case True
    then have "decode_all zstd d (c # cs) = Some (Inr ([], d))"
      by (rule decode_all_empty_chunks)
    then show ?thesis by (simp only: True decode_Nil)
  next
    case False
    with Cons.prems [rule_format, of 0] have op: "stage (decompressor d) \<noteq> Finished"
      by (auto simp: decode_Nil)
    show ?thesis
    proof (cases "concat cs = []")
      case True
      have e: "decode_all zstd self cs = Some (Inr ([], self))" for self
        using True by (rule decode_all_empty_chunks)
      have all: "decode_all zstd d (c # cs) = decode zstd d c"
        by (auto simp: e split: option.splits sum.splits)
      have "concat (c # cs) = c"
        by (simp only: concat.simps True append_Nil2)
      then show ?thesis by (simp only: all)
    next
      case rest: False
      then have "cs \<noteq> []" by auto
      with Cons.prems [rule_format, of 1] rest obtain o1 d1 where
        c: "decode zstd d c = Some (Inr (o1, d1))" and op1: "stage (decompressor d1) \<noteq> Finished"
        by auto
      note split = decode_zstd_split [OF op c op1]
      have "\<forall>k<length cs. concat (drop k cs) = [] \<or>
          (\<exists>out d'. decode zstd d1 (concat (take k cs)) = Some (Inr (out, d')) \<and>
             stage (decompressor d') \<noteq> Finished)"
      proof (intro allI impI)
        fix k assume "k < length cs"
        with Cons.prems [rule_format, of "Suc k"]
        have "concat (drop k cs) = [] \<or>
          (\<exists>out d'. decode zstd d (c @ concat (take k cs)) = Some (Inr (out, d')) \<and>
             stage (decompressor d') \<noteq> Finished)"
          by simp
        then show "concat (drop k cs) = [] \<or>
          (\<exists>out d'. decode zstd d1 (concat (take k cs)) = Some (Inr (out, d')) \<and>
             stage (decompressor d') \<noteq> Finished)"
          unfolding split by (auto simp: prepend_eq_Inr)
      qed
      then have "decode_all zstd d1 cs = decode zstd d1 (concat cs)" by (rule Cons.IH)
      then show ?thesis
        using c split [of "concat cs"] by (simp add: prepend_def)
    qed
  qed
qed

lemma decode_zstd_frames_prefix:
  assumes "prefix a (concat (map compress ps))"
    and "\<forall>j. 0 < j \<and> j \<le> length ps \<longrightarrow> a \<noteq> concat (map compress (take j ps))"
  shows "\<exists>out d'. decode zstd (init zstd) a = Some (Inr (out, d')) \<and>
           stage (decompressor d') \<noteq> Finished"
  using assms
proof (induction ps arbitrary: a)
  case Nil
  then show ?case by (simp add: decode_Nil init_def)
next
  case (Cons p ps)
  from Cons.prems(1) have "prefix a (compress p @ concat (map compress ps))" by simp
  then consider (inside) "strict_prefix a (compress p)"
    | (whole) a' where "a = compress p @ a'" "prefix a' (concat (map compress ps))"
  proof (cases "a = compress p")
    case True
    then have "a = compress p @ []" "prefix [] (concat (map compress ps))" by simp_all
    then show ?thesis by (rule that(2))
  next
    case False
    with \<open>prefix a (compress p @ concat (map compress ps))\<close> that show ?thesis
      by (auto simp: prefix_append strict_prefix_def)
  qed
  then show ?case
  proof cases
    case inside
    show ?thesis
    proof (cases "a = []")
      case True
      then show ?thesis by (simp add: decode_Nil init_def)
    next
      case False
      from feed_strict_prefix [OF inside] obtain out s where
        "feed (Magic MAGIC) a = Inr (out, s)" "stage s \<noteq> Finished" by blast
      then show ?thesis
        using decode_zstd_unfold [of "\<lparr>stage = Magic MAGIC, unused_input = []\<rparr>" a] False
        by (simp add: init_def)
    qed
  next
    case whole
    from Cons.prems(2) [rule_format, of 1] whole(1) have ne: "a' \<noteq> []" by auto
    have "\<forall>j. 0 < j \<and> j \<le> length ps \<longrightarrow> a' \<noteq> concat (map compress (take j ps))"
    proof (intro allI impI notI)
      fix j assume "0 < j \<and> j \<le> length ps" and "a' = concat (map compress (take j ps))"
      with whole(1) Cons.prems(2) [rule_format, of "Suc j"] show False by simp
    qed
    with whole(2) obtain out d' where
      r: "decode zstd (init zstd) a' = Some (Inr (out, d'))" "stage (decompressor d') \<noteq> Finished"
      using Cons.IH by blast
    have "feed (Magic MAGIC) a = Inr (p, \<lparr>stage = Finished, unused_input = a'\<rparr>)"
      unfolding whole(1) by (rule feed_compress)
    moreover have "a \<noteq> []" using whole(1) ne by simp
    ultimately have "decode zstd (init zstd) a = prepend p (decode zstd (init zstd) a')"
      using decode_zstd_unfold [of "\<lparr>stage = Magic MAGIC, unused_input = []\<rparr>" a] ne
      by (simp add: init_def)
    with r show ?thesis by simp
  qed
qed

section \<open>Dictionaries and the keyword arguments of a request\<close>

lemma map_of_dict_update_rev:
  "map_of (dict_update d other) = map_of d ++ map_of (rev other)"
  unfolding dict_update_def
proof (induction other arbitrary: d)
  case Nil
  then show ?case by simp
next
  case (Cons kv other)
  obtain k v where kv: "kv = (k, v)" by (cases kv)
  have "map_of (fold (\<lambda>(k, v). AList.update k v) other (AList.update k v d)) =
        map_of (AList.update k v d) ++ map_of (rev other)"
    by (rule Cons.IH)
  then show ?case
    by (auto simp: kv update_conv' fun_eq_iff map_add_def split: option.splits)
qed

lemma map_of_rev_distinct: "distinct (map fst d) \<Longrightarrow> map_of (rev d) = map_of d"
proof (induction d)
  case Nil
  then show ?case by simp
next
  case (Cons kv d)
  obtain k v where kv: "kv = (k, v)" by (cases kv)
  from Cons.prems kv have "map_of d k = None" by (simp add: map_of_eq_None_iff)
  with Cons show ?case
    by (auto simp: kv fun_eq_iff map_add_def split: option.splits)
qed

lemma map_of_dict_update:
  "distinct (map fst other) \<Longrightarrow> map_of (dict_update d other) = map_of d ++ map_of other"
  by (simp add: map_of_dict_update_rev map_of_rev_distinct)

lemma map_of_filter_values:
  "distinct (map fst d) \<Longrightarrow>
   map_of (filter (\<lambda>(k, v). P v) d) k =
     (case map_of d k of None \<Rightarrow> None | Some v \<Rightarrow> if P v then Some v else None)"
proof (induction d)
  case Nil
  then show ?case by simp
next
  case (Cons kv d)
  obtain k' v' where kv: "kv = (k', v')" by (cases kv)
  from Cons.prems kv have notin: "map_of d k' = None"
    by (simp add: map_of_eq_None_iff)
  have filt: "map_of (filter (\<lambda>(k, v). P v) d) k' = None"
    using notin by (auto simp: map_of_eq_None_iff)
  from Cons show ?case
    by (auto simp: kv notin filt split: option.splits)
qed


lemma map_of_default_timeout:
  "map_of d k = None \<Longrightarrow>
   map_of (filter (\<lambda>(k, v). P v) (AList.update k v d)) k = (if P v then Some v else None)"
proof (induction d)
  case Nil
  then show ?case by simp
next
  case (Cons kv d)
  then show ?case by (cases kv) (auto split: if_splits)
qed

lemma proxy_kwargs_single: "\<exists>k v. proxy_kwargs hp pm = [(k, v)] \<and> (k = ''proxies'' \<or> k = ''proxy'')"
  by (auto simp: proxy_kwargs_def Let_def)

lemma map_of_with_proxy:
  "map_of (dict_update d (proxy_kwargs hp pm)) = map_of d ++ map_of (proxy_kwargs hp pm)"
proof -
  from proxy_kwargs_single [of hp pm] obtain k v where "proxy_kwargs hp pm = [(k, v)]" by blast
  then show ?thesis by (simp add: map_of_dict_update)
qed

lemma client_request_Inr:
  "client_request c as hdrs kw = Inr call \<longleftrightarrow>
     map_of kw ''proxies'' = None \<and> map_of kw ''proxy'' = None \<and>
     call = \<lparr>client_kwargs = built_with c, args = as, kwargs = (''headers'', PDict hdrs) # kw\<rparr>"
  by (auto simp: client_request_def dict_contains_def)

lemma proxy_kwargs_present:
  "map_of (dict_update d (proxy_kwargs hp pm)) ''proxies'' \<noteq> None \<or>
   map_of (dict_update d (proxy_kwargs hp pm)) ''proxy'' \<noteq> None"
  using proxy_kwargs_single [of hp pm] by (auto simp: map_of_with_proxy)

lemma session_request_kwargs:
  assumes "session_request hp self as hdrs proxies kw = Inr (call, self')"
  shows "\<exists>h. py_or hdrs (PDict []) = PDict h \<and> proxies = PNone \<and>
     map_of (filter (\<lambda>(k, v). truthy v) (with_timeout kw)) ''proxies'' = None \<and>
     map_of (filter (\<lambda>(k, v). truthy v) (with_timeout kw)) ''proxy'' = None \<and>
     kwargs call =
       (''headers'', PDict (filter (\<lambda>(k, v). v \<noteq> PNone) (dict_update (headers self) h))) #
       filter (\<lambda>(k, v). truthy v) (with_timeout kw)"
proof -
  from assms obtain c h where h: "py_or hdrs (PDict []) = PDict h"
    and r: "client_request c as
        (filter (\<lambda>(k, v). v \<noteq> PNone) (dict_update (headers self) h))
        (if proxies \<noteq> PNone
         then dict_update (filter (\<lambda>(k, v). truthy v) (with_timeout kw)) (proxy_kwargs hp proxies)
         else filter (\<lambda>(k, v). truthy v) (with_timeout kw)) = Inr call"
    by (auto simp: session_request_def Let_def split: option.splits pyval.splits sum.splits)
  have none: "proxies = PNone"
  proof (rule ccontr)
    assume "proxies \<noteq> PNone"
    with r proxy_kwargs_present [of "filter (\<lambda>(k, v). truthy v) (with_timeout kw)" hp proxies]
    show False by (simp add: client_request_Inr)
  qed
  with r h show ?thesis by (simp add: client_request_Inr)
qed

lemma session_request_proxies_raises:
  "proxies \<noteq> PNone \<Longrightarrow> \<exists>e. session_request hp self as hdrs proxies kw = Inl e"
  using session_request_kwargs [of hp self as hdrs proxies kw]
  by (cases "session_request hp self as hdrs proxies kw") auto




section \<open>The claims about ZstdDecoder\<close>

text \<open>C1. Two frames decoded by one decoder. In one chunk the frames of \<open>p1\<close> and \<open>p2\<close>
  are read as \<open>p1 + p2\<close>, and so is any number of frames in one chunk. Delivered as
  two chunks split exactly at the frame boundary, the second \<open>decode\<close> raises: the first
  call left the object at the end of its frame with no unused bytes, so the loop did not
  replace it, and the second call feeds a finished object. This holds for any library
  whose object refuses data after the end of its frame (first part), and for every pair
  of payloads on the reference object. The three frames of \<open>alpha\<close>, \<open>beta\<close>, \<open>gamma\<close>
  (11, 10 and 11 bytes here) are read in chunks of 8 bytes, which never end on a frame
  boundary before the last; in chunks of 7 bytes the third chunk ends where the second
  frame ends, and the next \<open>decode\<close> raises.\<close>

theorem frames_split_at_boundary_raise:
  "(f1 \<noteq> [] \<and> f2 \<noteq> [] \<and> decompress Z (decompressobj Z) f1 = Inr (p, obj) \<and> eof Z obj \<and>
    unused_data Z obj = [] \<and> decompress Z obj f2 = Inl msg \<longrightarrow>
      read_body Z [f1, f2] = Some (Inl (ZstdError msg))) \<and>
   read_body zstd [compress p1 @ compress p2] = Some (Inr (p1 @ p2)) \<and>
   read_body zstd [concat (map compress (q # qs))] = Some (Inr (concat (q # qs))) \<and>
   read_body zstd [compress p1, compress p2] =
     Some (Inl (ZstdError ''cannot use a decompressobj multiple times'')) \<and>
   read_body zstd (chunked 8 (compress (bytes_of ''alpha'') @ compress (bytes_of ''beta'') @
       compress (bytes_of ''gamma''))) = Some (Inr (bytes_of ''alphabetagamma'')) \<and>
   read_body zstd (chunked 7 (compress (bytes_of ''alpha'') @ compress (bytes_of ''beta'') @
       compress (bytes_of ''gamma''))) =
     Some (Inl (ZstdError ''cannot use a decompressobj multiple times''))"
proof -
  have generic: "read_body Z [f1, f2] = Some (Inl (ZstdError msg))"
    if "f1 \<noteq> []" "f2 \<noteq> []" "decompress Z (decompressobj Z) f1 = Inr (p, obj)" "eof Z obj"
      "unused_data Z obj = []" "decompress Z obj f2 = Inl msg"
    using that by (simp add: read_body_def finish_def decode_def init_def decode_loop_done)
  have one: "read_body zstd [compress p1 @ compress p2] = Some (Inr (p1 @ p2))"
    using read_body_zstd_frames [of p1 "[p2]"] by simp
  have two: "read_body zstd [compress p1, compress p2] =
      Some (Inl (ZstdError ''cannot use a decompressobj multiple times''))"
    using decode_all_zstd_after_frame [of "[compress p1]" p1 "[compress p2]"]
    by (simp add: read_body_def finish_def compress_not_Nil)
  have eight: "read_body zstd (chunked 8 (compress (bytes_of ''alpha'') @
      compress (bytes_of ''beta'') @ compress (bytes_of ''gamma''))) =
      Some (Inr (bytes_of ''alphabetagamma''))"
    by code_simp
  have seven: "read_body zstd (chunked 7 (compress (bytes_of ''alpha'') @
      compress (bytes_of ''beta'') @ compress (bytes_of ''gamma''))) =
      Some (Inl (ZstdError ''cannot use a decompressobj multiple times''))"
    by code_simp
  from generic one two eight seven read_body_zstd_frames [of q qs] show ?thesis
    by blast
qed

theorem frames_split_at_boundary_raise_witness:
  "compress (bytes_of ''alpha'') \<noteq> [] \<and> compress (bytes_of ''beta'') \<noteq> [] \<and>
   decompress zstd (decompressobj zstd) (compress (bytes_of ''alpha'')) =
     Inr (bytes_of ''alpha'', \<lparr>stage = Finished, unused_input = []\<rparr>) \<and>
   eof zstd \<lparr>stage = Finished, unused_input = []\<rparr> \<and>
   unused_data zstd \<lparr>stage = Finished, unused_input = []\<rparr> = [] \<and>
   decompress zstd \<lparr>stage = Finished, unused_input = []\<rparr> (compress (bytes_of ''beta'')) =
     Inl ''cannot use a decompressobj multiple times'' \<and>
   read_body zstd [compress (bytes_of ''alpha''), compress (bytes_of ''beta'')] =
     Some (Inl (ZstdError ''cannot use a decompressobj multiple times'')) \<and>
   read_body zstd [compress (bytes_of ''alpha'') @ compress (bytes_of ''beta'')] =
     Some (Inr (bytes_of ''alpha'' @ bytes_of ''beta''))"
proof -
  have h: "compress (bytes_of ''alpha'') \<noteq> []" "compress (bytes_of ''beta'') \<noteq> []"
    "decompress zstd (decompressobj zstd) (compress (bytes_of ''alpha'')) =
       Inr (bytes_of ''alpha'', \<lparr>stage = Finished, unused_input = []\<rparr>)"
    "eof zstd \<lparr>stage = Finished, unused_input = []\<rparr>"
    "unused_data zstd \<lparr>stage = Finished, unused_input = []\<rparr> = []"
    "decompress zstd \<lparr>stage = Finished, unused_input = []\<rparr> (compress (bytes_of ''beta'')) =
       Inl ''cannot use a decompressobj multiple times''"
    using feed_compress [of "bytes_of ''alpha''" "[]"]
    by (simp_all add: compress_not_Nil zobj_decompress_def)
  from frames_split_at_boundary_raise [of "compress (bytes_of ''alpha'')"
      "compress (bytes_of ''beta'')" zstd "bytes_of ''alpha''"
      "\<lparr>stage = Finished, unused_input = []\<rparr>" "''cannot use a decompressobj multiple times''"
      "bytes_of ''alpha''" "bytes_of ''beta''" "[]" "[]"] h
  show ?thesis by blast
qed

text \<open>C2. \<open>flush()\<close> raises \<open>DecodingError("Zstandard data is incomplete")\<close> exactly when
  the decompression object of the decoder is not at the end of its frame, whatever the
  library; when it is, \<open>flush()\<close> returns what the object's \<open>flush\<close> returns. With the
  reference object: a fresh decoder flushed at once raises the error, and so does a
  decoder that was fed, in any chunks, a strict prefix of the frame of a payload.\<close>

theorem flush_raises_iff_incomplete:
  "(flush Z self = Inl (DecodingError ''Zstandard data is incomplete'')) =
     (\<not> eof Z (decompressor self)) \<and>
   (flush Z self = Inr (obj_flush Z (decompressor self))) = eof Z (decompressor self) \<and>
   (\<forall>e. flush Z self = Inl e \<longrightarrow> e = DecodingError ''Zstandard data is incomplete'') \<and>
   (\<forall>ret. flush Z self = Inr ret \<longrightarrow> ret = obj_flush Z (decompressor self)) \<and>
   flush zstd (init zstd) = Inl (DecodingError ''Zstandard data is incomplete'') \<and>
   read_body zstd [] = Some (Inl (DecodingError ''Zstandard data is incomplete'')) \<and>
   (strict_prefix (concat chunks) (compress p) \<longrightarrow>
      read_body zstd chunks = Some (Inl (DecodingError ''Zstandard data is incomplete'')))"
proof -
  have "flush zstd (init zstd) = Inl (DecodingError ''Zstandard data is incomplete'')"
    by (simp add: flush_def init_def)
  moreover have "read_body zstd [] = Some (Inl (DecodingError ''Zstandard data is incomplete''))"
    by (simp add: read_body_def finish_def flush_def init_def)
  moreover have "strict_prefix (concat chunks) (compress p) \<longrightarrow>
      read_body zstd chunks = Some (Inl (DecodingError ''Zstandard data is incomplete''))"
    by (simp add: read_body_strict_prefix)
  ultimately show ?thesis
    by (auto simp: flush_def Let_def)
qed

theorem flush_raises_iff_incomplete_witness:
  "strict_prefix (concat [[40, 181], [47, 253, 5, 97]]) (compress (bytes_of ''alpha'')) \<and>
   read_body zstd [[40, 181], [47, 253, 5, 97]] =
     Some (Inl (DecodingError ''Zstandard data is incomplete'')) \<and>
   \<not> eof zstd (decompressor (init zstd)) \<and>
   flush zstd (init zstd) = Inl (DecodingError ''Zstandard data is incomplete'') \<and>
   eof zstd \<lparr>stage = Finished, unused_input = []\<rparr> \<and>
   flush zstd \<lparr>decompressor = \<lparr>stage = Finished, unused_input = []\<rparr>\<rparr> = Inr []"
proof -
  have h: "strict_prefix (concat [[40, 181], [47, 253, 5, 97]]) (compress (bytes_of ''alpha''))"
    by (simp add: compress_def MAGIC_def bytes_of_def blocks.simps)
  have e: "eof zstd \<lparr>stage = Finished, unused_input = []\<rparr>" "\<not> eof zstd (decompressor (init zstd))"
    by (simp_all add: init_def)
  from flush_raises_iff_incomplete [of zstd "\<lparr>decompressor = \<lparr>stage = Finished, unused_input = []\<rparr>\<rparr>"
      "[[40, 181], [47, 253, 5, 97]]" "bytes_of ''alpha''"] e(1)
  have "flush zstd \<lparr>decompressor = \<lparr>stage = Finished, unused_input = []\<rparr>\<rparr> = Inr []"
    by simp
  with flush_raises_iff_incomplete [of zstd "init zstd" "[[40, 181], [47, 253, 5, 97]]"
      "bytes_of ''alpha''"] h e
  show ?thesis by blast
qed

text \<open>C3. The frames of \<open>p1\<close> and \<open>p2\<close>, one after the other, are one compressed
  stream. Delivered as a single chunk it is read as \<open>p1 + p2\<close>; delivered one byte at
  a time the read raises, at the first byte after the end of the first frame. The stream
  of one frame is read as its payload however it is cut into chunks.\<close>

theorem chunking_changes_result:
  "read_body zstd [compress p1 @ compress p2] = Some (Inr (p1 @ p2)) \<and>
   read_body zstd (bytewise (compress p1 @ compress p2)) =
     Some (Inl (ZstdError ''cannot use a decompressobj multiple times'')) \<and>
   read_body zstd [compress p1 @ compress p2] \<noteq> read_body zstd (bytewise (compress p1 @ compress p2)) \<and>
   (concat chunks = compress p \<longrightarrow> read_body zstd chunks = Some (Inr p))"
proof -
  have one: "read_body zstd [compress p1 @ compress p2] = Some (Inr (p1 @ p2))"
    using read_body_zstd_frames [of p1 "[p2]"] by simp
  have "decode_all zstd (init zstd) (bytewise (compress p1) @ bytewise (compress p2)) =
      Some (Inl (ZstdError ''cannot use a decompressobj multiple times''))"
    by (rule decode_all_zstd_after_frame) (simp_all add: compress_not_Nil)
  then have bytes: "read_body zstd (bytewise (compress p1 @ compress p2)) =
      Some (Inl (ZstdError ''cannot use a decompressobj multiple times''))"
    by (simp add: read_body_def finish_def bytewise_def)
  show ?thesis
    unfolding one bytes using read_body_zstd_single_frame [of chunks p] by simp
qed

theorem chunking_changes_result_witness:
  "concat [[40, 181, 47], [253, 5, 97, 108, 112, 104, 97, 0]] = compress (bytes_of ''alpha'') \<and>
   read_body zstd [[40, 181, 47], [253, 5, 97, 108, 112, 104, 97, 0]] =
     Some (Inr (bytes_of ''alpha'')) \<and>
   read_body zstd [compress (bytes_of ''alpha'') @ compress (bytes_of ''beta'')] =
     Some (Inr (bytes_of ''alpha'' @ bytes_of ''beta'')) \<and>
   read_body zstd (bytewise (compress (bytes_of ''alpha'') @ compress (bytes_of ''beta''))) =
     Some (Inl (ZstdError ''cannot use a decompressobj multiple times''))"
proof -
  have h: "concat [[40, 181, 47], [253, 5, 97, 108, 112, 104, 97, 0]] = compress (bytes_of ''alpha'')"
    by (simp add: compress_def MAGIC_def bytes_of_def blocks.simps)
  from chunking_changes_result [of "bytes_of ''alpha''" "bytes_of ''beta''"
      "[[40, 181, 47], [253, 5, 97, 108, 112, 104, 97, 0]]" "bytes_of ''alpha''"] h
  show ?thesis by blast
qed

text \<open>C4. Round trip of one frame. Whatever the library: when \<open>f\<close> is a frame of the
  payload \<open>p\<close> (a fresh decompression object fed \<open>f\<close> returns \<open>p\<close>, reports the end of
  the frame and has consumed every byte, and its \<open>flush\<close> returns nothing), a fresh
  \<open>ZstdDecoder\<close> returns \<open>p\<close> from \<open>decode(f)\<close> and \<open>b""\<close> from \<open>flush()\<close>, so the
  body read is \<open>p\<close>. With the reference object this holds for the frame of every
  payload \<open>q\<close>.\<close>

theorem roundtrip_single_frame:
  "(f \<noteq> [] \<and> decompress Z (decompressobj Z) f = Inr (p, obj) \<and> eof Z obj \<and>
    unused_data Z obj = [] \<and> obj_flush Z obj = [] \<longrightarrow>
      decode Z (init Z) f = Some (Inr (p, \<lparr>decompressor = obj\<rparr>)) \<and>
      flush Z \<lparr>decompressor = obj\<rparr> = Inr [] \<and>
      read_body Z [f] = Some (Inr p)) \<and>
   read_body zstd [compress q] = Some (Inr q)"
proof -
  have "read_body zstd [compress q] = Some (Inr q)"
    by (rule read_body_zstd_single_frame) simp
  moreover have "read_body Z [f] = Some (Inr p)"
    and "decode Z (init Z) f = Some (Inr (p, \<lparr>decompressor = obj\<rparr>))"
    and "flush Z \<lparr>decompressor = obj\<rparr> = Inr []"
    if "f \<noteq> []" "decompress Z (decompressobj Z) f = Inr (p, obj)" "eof Z obj"
      "unused_data Z obj = []" "obj_flush Z obj = []"
    using that
    by (simp_all add: read_body_def finish_def flush_def decode_def init_def decode_loop_done)
  ultimately show ?thesis by blast
qed

theorem roundtrip_single_frame_witness:
  "compress (bytes_of ''alpha'') \<noteq> [] \<and>
   decompress zstd (decompressobj zstd) (compress (bytes_of ''alpha'')) =
     Inr (bytes_of ''alpha'', \<lparr>stage = Finished, unused_input = []\<rparr>) \<and>
   eof zstd \<lparr>stage = Finished, unused_input = []\<rparr> \<and>
   unused_data zstd \<lparr>stage = Finished, unused_input = []\<rparr> = [] \<and>
   obj_flush zstd \<lparr>stage = Finished, unused_input = []\<rparr> = [] \<and>
   decode zstd (init zstd) (compress (bytes_of ''alpha'')) =
     Some (Inr (bytes_of ''alpha'', \<lparr>decompressor = \<lparr>stage = Finished, unused_input = []\<rparr>\<rparr>)) \<and>
   read_body zstd [compress (bytes_of ''alpha'')] = Some (Inr (bytes_of ''alpha'')) \<and>
   bytes_of ''alpha'' = [97, 108, 112, 104, 97] \<and>
   compress (bytes_of ''alpha'') = [40, 181, 47, 253, 5, 97, 108, 112, 104, 97, 0]"
proof -
  have c: "compress (bytes_of ''alpha'') = [40, 181, 47, 253, 5, 97, 108, 112, 104, 97, 0]"
    and b: "bytes_of ''alpha'' = [97, 108, 112, 104, 97]"
    by (simp_all add: compress_def MAGIC_def bytes_of_def blocks.simps)
  have h: "compress (bytes_of ''alpha'') \<noteq> [] \<and>
    decompress zstd (decompressobj zstd) (compress (bytes_of ''alpha'')) =
      Inr (bytes_of ''alpha'', \<lparr>stage = Finished, unused_input = []\<rparr>) \<and>
    eof zstd \<lparr>stage = Finished, unused_input = []\<rparr> \<and>
    unused_data zstd \<lparr>stage = Finished, unused_input = []\<rparr> = [] \<and>
    obj_flush zstd \<lparr>stage = Finished, unused_input = []\<rparr> = []"
    by (simp add: c [unfolded b] b zobj_decompress_def MAGIC_def)
  from roundtrip_single_frame [of "compress (bytes_of ''alpha'')" zstd "bytes_of ''alpha''"
      "\<lparr>stage = Finished, unused_input = []\<rparr>" "bytes_of ''alpha''"] h c b
  show ?thesis by blast
qed




text \<open>C6. \<open>decode(b"")\<close> returns \<open>b""\<close> and leaves the decoder as it was, in every
  state and whatever the library. So a sequence of \<open>decode\<close> calls with an empty call
  put before or after the call \<open>decode(c)\<close> returns what the sequence without it returns
  and leaves the same decoder, and the \<open>flush\<close> that follows returns the same.\<close>

theorem decode_empty_is_noop:
  "decode Z self [] = Some (Inr ([], self)) \<and>
   decode_all Z self ([] # c # cs) = decode_all Z self (c # cs) \<and>
   decode_all Z self (c # [] # cs) = decode_all Z self (c # cs) \<and>
   finish Z (decode_all Z self ([] # c # cs)) = finish Z (decode_all Z self (c # cs)) \<and>
   finish Z (decode_all Z self (c # [] # cs)) = finish Z (decode_all Z self (c # cs))"
proof -
  have before: "decode_all Z self ([] # c # cs) = decode_all Z self (c # cs)"
    by (rule decode_all_skip_empty)
  have "decode_all Z self ([c] @ [] # cs) = decode_all Z self ([c] @ cs)"
    unfolding decode_all_append [of Z self "[c]"] decode_all_skip_empty ..
  then have after: "decode_all Z self (c # [] # cs) = decode_all Z self (c # cs)"
    by simp
  show ?thesis
    unfolding before after by (simp add: decode_Nil)
qed

theorem decode_empty_is_noop_witness:
  "decode zstd (init zstd) [] = Some (Inr ([], init zstd)) \<and>
   decode_all zstd (init zstd) [[], [40, 181], []] = decode_all zstd (init zstd) [[40, 181], []] \<and>
   decode_all zstd (init zstd) [[40, 181], [], []] = decode_all zstd (init zstd) [[40, 181], []] \<and>
   finish zstd (decode_all zstd (init zstd) [[], [40, 181], []]) =
     finish zstd (decode_all zstd (init zstd) [[40, 181], []]) \<and>
   finish zstd (decode_all zstd (init zstd) [[40, 181], [], []]) =
     finish zstd (decode_all zstd (init zstd) [[40, 181], []])"
  by (rule decode_empty_is_noop)

text \<open>C7. A decoder holds one decompression object (the one field of the record), and,
  whatever the library:
  \<^item> when \<open>decode\<close> has fed a non-empty chunk to its object and the object is at the end
    of its frame with unused bytes left, \<open>decode\<close> goes on with a fresh object fed
    exactly those bytes: it raises what that call raises, or continues the loop on the
    fresh object with both outputs;
  \<^item> when \<open>decode\<close> of a non-empty chunk returns, the object of the decoder is not at
    the end of a frame with unused bytes left;
  \<^item> a \<open>decode\<close> that returns keeps this property of the decoder, and so does any
    sequence of \<open>decode\<close> calls; a fresh decoder has it when the library's fresh
    object has, as the reference object does.\<close>

theorem decode_leaves_no_unused_data:
  "(data \<noteq> [] \<and> decompress Z (decompressor self) data = Inr (part, obj) \<and>
    eof Z obj \<and> unused_data Z obj \<noteq> [] \<longrightarrow>
      decode Z self data =
        (case decompress Z (decompressobj Z) (unused_data Z obj) of
           Inl msg \<Rightarrow> Some (Inl (ZstdError msg))
         | Inr (part', obj') \<Rightarrow> decode_loop Z obj' [part, part'])) \<and>
   (data \<noteq> [] \<and> decode Z self data = Some (Inr (out, self')) \<longrightarrow>
      \<not> (eof Z (decompressor self') \<and> unused_data Z (decompressor self') \<noteq> [])) \<and>
   (\<not> (eof Z (decompressor self) \<and> unused_data Z (decompressor self) \<noteq> []) \<and>
    decode_all Z self chunks = Some (Inr (out, self')) \<longrightarrow>
      \<not> (eof Z (decompressor self') \<and> unused_data Z (decompressor self') \<noteq> [])) \<and>
   (decode_all zstd (init zstd) chunks = Some (Inr (out', self'')) \<longrightarrow>
      \<not> (eof zstd (decompressor self'') \<and> unused_data zstd (decompressor self'') \<noteq> []))"
proof -
  have step: "decode Z self data =
        (case decompress Z (decompressobj Z) (unused_data Z obj) of
           Inl msg \<Rightarrow> Some (Inl (ZstdError msg))
         | Inr (part', obj') \<Rightarrow> decode_loop Z obj' [part, part'])"
    if "data \<noteq> []" "decompress Z (decompressor self) data = Inr (part, obj)"
      "eof Z obj" "unused_data Z obj \<noteq> []"
    using that by (auto simp: decode_def decode_loop_again split: sum.splits)
  have fresh: "\<not> (eof zstd (decompressor (init zstd)) \<and>
      unused_data zstd (decompressor (init zstd)) \<noteq> [])"
    by (simp add: init_def)
  have "\<not> (eof zstd (decompressor self'') \<and> unused_data zstd (decompressor self'') \<noteq> [])"
    if "decode_all zstd (init zstd) chunks = Some (Inr (out', self''))"
    using that fresh by (rule decode_all_inv)
  with step decode_post [of Z self data out self'] decode_all_inv [of Z self chunks out self']
  show ?thesis by blast
qed

theorem decode_leaves_no_unused_data_witness:
  "decompress zstd (decompressor (init zstd)) [40, 181, 47, 253, 0, 40, 181] =
     Inr ([], \<lparr>stage = Finished, unused_input = [40, 181]\<rparr>) \<and>
   eof zstd \<lparr>stage = Finished, unused_input = [40, 181]\<rparr> \<and>
   unused_data zstd \<lparr>stage = Finished, unused_input = [40, 181]\<rparr> \<noteq> [] \<and>
   decode zstd (init zstd) [40, 181, 47, 253, 0, 40, 181] =
     Some (Inr ([], \<lparr>decompressor = \<lparr>stage = Magic [47, 253], unused_input = []\<rparr>\<rparr>)) \<and>
   decode_all zstd (init zstd) [[40, 181, 47, 253, 0, 40, 181]] =
     Some (Inr ([], \<lparr>decompressor = \<lparr>stage = Magic [47, 253], unused_input = []\<rparr>\<rparr>)) \<and>
   \<not> (eof zstd (decompressor \<lparr>decompressor = \<lparr>stage = Magic [47, 253], unused_input = []\<rparr>\<rparr>) \<and>
      unused_data zstd (decompressor \<lparr>decompressor = \<lparr>stage = Magic [47, 253], unused_input = []\<rparr>\<rparr>)
        \<noteq> [])"
proof -
  let ?data = "[40, 181, 47, 253, 0, 40, 181] :: bytes"
  let ?obj = "\<lparr>stage = Finished, unused_input = [40, 181]\<rparr>"
  let ?end = "\<lparr>decompressor = \<lparr>stage = Magic [47, 253], unused_input = []\<rparr>\<rparr>"
  have h: "decompress zstd (decompressor (init zstd)) ?data = Inr ([], ?obj)"
    "eof zstd ?obj" "unused_data zstd ?obj \<noteq> []" "?data \<noteq> []"
    by (simp_all add: init_def zobj_decompress_def MAGIC_def)
  have d: "decode zstd (init zstd) ?data = Some (Inr ([], ?end))"
    by (simp add: decode_def init_def decode_loop_again decode_loop_done zobj_decompress_def
        MAGIC_def)
  have a: "decode_all zstd (init zstd) [?data] = Some (Inr ([], ?end))"
    unfolding decode_all.simps d by simp
  from decode_leaves_no_unused_data
    [of ?data zstd "init zstd" "[]" ?obj "[]" ?end "[?data]" "[]" ?end] d a h
  show ?thesis by blast
qed

section \<open>The claims about request and Session.request\<close>

text \<open>C8. When the caller passes no \<open>timeout\<close>, the request the module-level
  \<open>request\<close> issues carries \<open>timeout=45\<close>, and so does the request \<open>Session.request\<close>
  issues, whenever it issues one.\<close>

theorem default_timeout_applied:
  "(\<not> dict_contains ''timeout'' kw \<longrightarrow>
      map_of (kwargs (request hp method url proxy proxies kw)) ''timeout'' = Some (PInt 45)) \<and>
   (\<not> dict_contains ''timeout'' kw \<and>
    session_request hp self as hdrs proxies kw = Inr (call, self') \<longrightarrow>
      map_of (kwargs call) ''timeout'' = Some (PInt 45))"
proof -
  have mod: "map_of (kwargs (request hp method url proxy proxies kw)) ''timeout'' = Some (PInt 45)"
    if "\<not> dict_contains ''timeout'' kw"
    using that
    by (simp add: request_def with_timeout_def Let_def update_conv' DEFAULT_TIMEOUT_def)
  have ses: "map_of (kwargs call) ''timeout'' = Some (PInt 45)"
    if none: "\<not> dict_contains ''timeout'' kw"
      and ok: "session_request hp self as hdrs proxies kw = Inr (call, self')"
  proof -
    from none have n: "map_of kw ''timeout'' = None" by (simp add: dict_contains_def)
    have kept: "map_of (filter (\<lambda>(k, v). truthy v) (with_timeout kw)) ''timeout'' = Some (PInt 45)"
      using none map_of_default_timeout [OF n, of truthy "PInt DEFAULT_TIMEOUT"]
      by (simp add: with_timeout_def DEFAULT_TIMEOUT_def)
    from session_request_kwargs [OF ok] kept show ?thesis
      by auto
  qed
  from mod ses show ?thesis by blast
qed

theorem default_timeout_applied_witness:
  "\<not> dict_contains ''timeout'' [(''data'', PStr ''x'')] \<and>
   map_of (kwargs (request True (PStr ''GET'') (PStr ''u'') PNone PNone [(''data'', PStr ''x'')]))
     ''timeout'' = Some (PInt 45) \<and>
   (\<exists>call self'.
      session_request True (set_proxies True Session PNone) [PStr ''get'', PStr ''u''] PNone PNone
        [(''data'', PStr ''x'')] = Inr (call, self') \<and>
      kwargs call = [(''headers'', PDict []), (''data'', PStr ''x''), (''timeout'', PInt 45)] \<and>
      map_of (kwargs call) ''timeout'' = Some (PInt 45))"
proof -
  let ?kw = "[(''data'', PStr ''x'')]"
  let ?built = "[(''verify'', PBool False), (''follow_redirects'', PBool True), (''proxies'', PNone)]"
  let ?call = "\<lparr>client_kwargs = ?built, args = [PStr ''get'', PStr ''u''],
      kwargs = [(''headers'', PDict []), (''data'', PStr ''x''), (''timeout'', PInt 45)]\<rparr>"
  let ?self = "\<lparr>headers = [], verify = False,
      client' = Some \<lparr>built_with = ?built, state = OPENED\<rparr>, proxies' = PNone\<rparr>"
  have h: "\<not> dict_contains ''timeout'' ?kw"
    by (simp add: dict_contains_def)
  have e: "session_request True (set_proxies True Session PNone) [PStr ''get'', PStr ''u''] PNone
      PNone ?kw = Inr (?call, ?self)"
    by code_simp
  have k: "kwargs ?call = [(''headers'', PDict []), (''data'', PStr ''x''), (''timeout'', PInt 45)]"
    by simp
  from default_timeout_applied [of ?kw True "PStr ''GET''" "PStr ''u''" PNone PNone
      "set_proxies True Session PNone" "[PStr ''get'', PStr ''u'']" PNone ?call ?self] h e k
  show ?thesis by blast
qed



text \<open>C10. When \<open>Session.request\<close> issues a request, every keyword argument other
  than \<open>headers\<close> whose value is falsy is absent from it: an argument collected in
  \<open>**kwargs\<close> with a falsy value (a \<open>timeout\<close> of 0, an empty \<open>data\<close> dictionary, an
  empty string) is removed, and a \<open>timeout=0\<close> is neither kept as 0 nor replaced by 45,
  so the request carries no \<open>timeout\<close> at all; the arguments with a truthy value are
  passed on unchanged. The \<open>proxies\<close> argument of an issued request is \<open>None\<close> and is
  not passed on either: any other value is put among the keyword arguments after the
  filtering and makes the call of the client raise, so that no request is issued. The
  keyword arguments of the caller have distinct names.\<close>

theorem session_discards_falsy_kwargs:
  "distinct (map fst kw) \<and> session_request hp self as hdrs proxies kw = Inr (call, self') \<longrightarrow>
     (\<forall>k v. map_of kw k = Some v \<and> \<not> truthy v \<and> k \<noteq> ''headers'' \<longrightarrow>
        map_of (kwargs call) k = None) \<and>
     (map_of kw ''timeout'' = Some (PInt 0) \<longrightarrow> map_of (kwargs call) ''timeout'' = None) \<and>
     (\<forall>k v. map_of kw k = Some v \<and> truthy v \<and> k \<noteq> ''headers'' \<longrightarrow>
        map_of (kwargs call) k = Some v) \<and>
     (\<forall>k v. map_of (kwargs call) k = Some v \<and> k \<noteq> ''headers'' \<longrightarrow> truthy v) \<and>
     proxies = PNone \<and>
     map_of (kwargs call) ''proxies'' = None \<and> map_of (kwargs call) ''proxy'' = None"
proof (intro impI, elim conjE)
  assume dk: "distinct (map fst kw)"
    and ok: "session_request hp self as hdrs proxies kw = Inr (call, self')"
  let ?kept = "filter (\<lambda>(k, v). truthy v) (with_timeout kw)"
  have dw: "distinct (map fst (with_timeout kw))"
    using dk by (simp add: with_timeout_def AList.distinct_update)
  have same: "map_of (with_timeout kw) k = Some v" if "map_of kw k = Some v" for k v
    using that by (auto simp: with_timeout_def dict_contains_def update_conv')
  have filtered: "map_of ?kept k =
      (case map_of (with_timeout kw) k of
         None \<Rightarrow> None | Some v \<Rightarrow> if truthy v then Some v else None)" for k
    using map_of_filter_values [OF dw, of truthy k] .
  have kept: "map_of ?kept k = (if truthy v then Some v else None)" if "map_of kw k = Some v" for k v
    using filtered [of k] same [OF that] by simp
  from session_request_kwargs [OF ok] have none: "proxies = PNone"
    and np: "map_of ?kept ''proxies'' = None" "map_of ?kept ''proxy'' = None"
    by auto
  have issued: "map_of (kwargs call) k = map_of ?kept k" if "k \<noteq> ''headers''" for k
    using session_request_kwargs [OF ok] that by auto
  have falsy: "map_of (kwargs call) k = None"
    if "map_of kw k = Some v" "\<not> truthy v" "k \<noteq> ''headers''" for k v
    using issued [OF that(3)] kept [OF that(1)] that(2) by simp
  have truthy: "map_of (kwargs call) k = Some v"
    if "map_of kw k = Some v" "truthy v" "k \<noteq> ''headers''" for k v
    using issued [OF that(3)] kept [OF that(1)] that(2) by simp
  have timeout: "map_of (kwargs call) ''timeout'' = None" if "map_of kw ''timeout'' = Some (PInt 0)"
    using falsy [OF that] by simp
  have all_truthy: "truthy v" if "map_of (kwargs call) k = Some v" "k \<noteq> ''headers''" for k v
    using issued [OF that(2)] that(1) filtered [of k]
    by (auto split: option.splits if_splits)
  have "map_of (kwargs call) ''proxies'' = None" "map_of (kwargs call) ''proxy'' = None"
    using issued [of "''proxies''"] issued [of "''proxy''"] np by simp_all
  with falsy truthy timeout all_truthy none
  show "(\<forall>k v. map_of kw k = Some v \<and> \<not> truthy v \<and> k \<noteq> ''headers'' \<longrightarrow>
        map_of (kwargs call) k = None) \<and>
     (map_of kw ''timeout'' = Some (PInt 0) \<longrightarrow> map_of (kwargs call) ''timeout'' = None) \<and>
     (\<forall>k v. map_of kw k = Some v \<and> truthy v \<and> k \<noteq> ''headers'' \<longrightarrow>
        map_of (kwargs call) k = Some v) \<and>
     (\<forall>k v. map_of (kwargs call) k = Some v \<and> k \<noteq> ''headers'' \<longrightarrow> truthy v) \<and>
     proxies = PNone \<and>
     map_of (kwargs call) ''proxies'' = None \<and> map_of (kwargs call) ''proxy'' = None"
    by blast
qed

theorem session_discards_falsy_kwargs_witness:
  "distinct (map fst [(''timeout'', PInt 0), (''data'', PDict []), (''q'', PStr ''''),
     (''json'', PStr ''j'')]) \<and>
   (\<exists>call self'.
      session_request True (set_proxies True Session PNone) [PStr ''get'', PStr ''u''] PNone PNone
        [(''timeout'', PInt 0), (''data'', PDict []), (''q'', PStr ''''), (''json'', PStr ''j'')] =
        Inr (call, self') \<and>
      kwargs call = [(''headers'', PDict []), (''json'', PStr ''j'')] \<and>
      map_of (kwargs call) ''timeout'' = None \<and>
      map_of (kwargs call) ''data'' = None \<and>
      map_of (kwargs call) ''q'' = None \<and>
      map_of (kwargs call) ''json'' = Some (PStr ''j''))"
proof -
  let ?kw = "[(''timeout'', PInt 0), (''data'', PDict []), (''q'', PStr ''''), (''json'', PStr ''j'')]"
  let ?built = "[(''verify'', PBool False), (''follow_redirects'', PBool True), (''proxies'', PNone)]"
  let ?call = "\<lparr>client_kwargs = ?built, args = [PStr ''get'', PStr ''u''],
      kwargs = [(''headers'', PDict []), (''json'', PStr ''j'')]\<rparr>"
  let ?self = "\<lparr>headers = [], verify = False,
      client' = Some \<lparr>built_with = ?built, state = OPENED\<rparr>, proxies' = PNone\<rparr>"
  have d: "distinct (map fst ?kw)" by simp
  have e: "session_request True (set_proxies True Session PNone) [PStr ''get'', PStr ''u''] PNone
      PNone ?kw = Inr (?call, ?self)"
    by code_simp
  have m: "map_of ?kw ''timeout'' = Some (PInt 0)" "map_of ?kw ''data'' = Some (PDict [])"
    "map_of ?kw ''q'' = Some (PStr '''')" "map_of ?kw ''json'' = Some (PStr ''j'')"
    "\<not> truthy (PInt 0)" "\<not> truthy (PDict [])" "\<not> truthy (PStr '''')" "truthy (PStr ''j'')"
    "''data'' \<noteq> ''headers''" "''q'' \<noteq> ''headers''" "''json'' \<noteq> ''headers''"
    by simp_all
  have k: "kwargs ?call = [(''headers'', PDict []), (''json'', PStr ''j'')]" by simp
  from session_discards_falsy_kwargs [of ?kw True "set_proxies True Session PNone"
      "[PStr ''get'', PStr ''u'']" PNone PNone ?call ?self] d e
  have "(\<forall>k v. map_of ?kw k = Some v \<and> \<not> truthy v \<and> k \<noteq> ''headers'' \<longrightarrow>
          map_of (kwargs ?call) k = None) \<and>
     (map_of ?kw ''timeout'' = Some (PInt 0) \<longrightarrow> map_of (kwargs ?call) ''timeout'' = None) \<and>
     (\<forall>k v. map_of ?kw k = Some v \<and> truthy v \<and> k \<noteq> ''headers'' \<longrightarrow>
          map_of (kwargs ?call) k = Some v)"
    by blast
  with m have "map_of (kwargs ?call) ''timeout'' = None \<and> map_of (kwargs ?call) ''data'' = None \<and>
      map_of (kwargs ?call) ''q'' = None \<and> map_of (kwargs ?call) ''json'' = Some (PStr ''j'')"
    by blast
  with d e k show ?thesis by blast
qed

section \<open>Further properties of decode\<close>

subsection \<open>The loop of decode ends\<close>

text \<open>The source puts no bound on the rounds of the loop in \<open>decode\<close>. It ends, and
  \<open>decode\<close> returns or raises, with every library whose fresh object, when it reaches
  the end of a frame, has consumed at least one byte: each round then feeds a fresh
  object fewer bytes than the round before. The reference object is such a library.\<close>

theorem decode_terminates:
  "(\<forall>d part obj. d \<noteq> [] \<and> decompress Z (decompressobj Z) d = Inr (part, obj) \<and> eof Z obj \<longrightarrow>
       length (unused_data Z obj) < length d) \<longrightarrow>
   (\<exists>r. decode Z self data = Some r)"
proof
  assume progress: "\<forall>d part obj. d \<noteq> [] \<and> decompress Z (decompressobj Z) d = Inr (part, obj) \<and>
      eof Z obj \<longrightarrow> length (unused_data Z obj) < length d"
  have loop: "\<exists>r. decode_loop Z obj parts = Some r" for obj parts
  proof (induction "length (unused_data Z obj)" arbitrary: obj parts rule: less_induct)
    case less
    show ?case
    proof (cases "eof Z obj \<and> unused_data Z obj \<noteq> []")
      case False
      then show ?thesis by (simp add: decode_loop_done)
    next
      case True
      show ?thesis
      proof (cases "decompress Z (decompressobj Z) (unused_data Z obj)")
        case (Inl msg)
        with True show ?thesis by (simp add: decode_loop_again)
      next
        case (Inr r)
        obtain part obj' where r: "r = (part, obj')" by (cases r)
        show ?thesis
        proof (cases "eof Z obj' \<and> unused_data Z obj' \<noteq> []")
          case False
          with True Inr r show ?thesis by (simp add: decode_loop_again decode_loop_done)
        next
          case again: True
          with progress True Inr r have "length (unused_data Z obj') < length (unused_data Z obj)"
            by blast
          from less [OF this, of "parts @ [part]"] True Inr r show ?thesis
            by (simp add: decode_loop_again)
        qed
      qed
    qed
  qed
  show "\<exists>r. decode Z self data = Some r"
    using loop by (auto simp: decode_def split: sum.splits)
qed

theorem decode_terminates_witness:
  "\<forall>self data. \<exists>r. decode zstd self data = Some r"
proof -
  have h: "\<forall>d part obj. d \<noteq> [] \<and> decompress zstd (decompressobj zstd) d = Inr (part, obj) \<and>
      eof zstd obj \<longrightarrow> length (unused_data zstd obj) < length d"
    by (auto simp: zobj_decompress_def dest: feed_progress)
  show ?thesis
  proof (intro allI)
    fix self data
    from decode_terminates [of zstd self data] h
    show "\<exists>r. decode zstd self data = Some r" by blast
  qed
qed

subsection \<open>Frames and chunks with no common boundary\<close>

text \<open>Frames that share no boundary with a chunk. On the reference object: when the
  chunks of a body make up the frames of the payloads \<open>ps\<close>, one after the other, and no
  chunk ends where a frame other than the last ends, the body is read as the payloads,
  one after the other.\<close>

theorem frames_read_when_no_chunk_ends_a_frame:
  "ps \<noteq> [] \<and> concat chunks = concat (map compress ps) \<and>
   (\<forall>k j. k < length chunks \<and> 0 < j \<and> j < length ps \<longrightarrow>
      concat (take k chunks) \<noteq> concat (map compress (take j ps))) \<longrightarrow>
   read_body zstd chunks = Some (Inr (concat ps))"
proof (intro impI, elim conjE)
  assume ne: "ps \<noteq> []" and stream: "concat chunks = concat (map compress ps)"
    and apart: "\<forall>k j. k < length chunks \<and> 0 < j \<and> j < length ps \<longrightarrow>
      concat (take k chunks) \<noteq> concat (map compress (take j ps))"
  have "\<forall>k<length chunks. concat (drop k chunks) = [] \<or>
      (\<exists>out d'. decode zstd (init zstd) (concat (take k chunks)) = Some (Inr (out, d')) \<and>
         stage (decompressor d') \<noteq> Finished)"
  proof (intro allI impI)
    fix k assume k: "k < length chunks"
    have cat: "concat (take k chunks) @ concat (drop k chunks) = concat (map compress ps)"
      using stream by (metis append_take_drop_id concat_append)
    show "concat (drop k chunks) = [] \<or>
      (\<exists>out d'. decode zstd (init zstd) (concat (take k chunks)) = Some (Inr (out, d')) \<and>
         stage (decompressor d') \<noteq> Finished)"
    proof (cases "concat (drop k chunks) = []")
      case True
      then show ?thesis by simp
    next
      case False
      have pre: "prefix (concat (take k chunks)) (concat (map compress ps))"
        using cat by (metis prefixI)
      have "\<forall>j. 0 < j \<and> j \<le> length ps \<longrightarrow>
          concat (take k chunks) \<noteq> concat (map compress (take j ps))"
      proof (intro allI impI)
        fix j assume j: "0 < j \<and> j \<le> length ps"
        show "concat (take k chunks) \<noteq> concat (map compress (take j ps))"
        proof (cases "j = length ps")
          case True
          with cat False show ?thesis by auto
        next
          case False
          with j k apart show ?thesis by simp
        qed
      qed
      with pre show ?thesis using decode_zstd_frames_prefix by blast
    qed
  qed
  then have "decode_all zstd (init zstd) chunks = decode zstd (init zstd) (concat chunks)"
    by (rule decode_all_zstd_concat)
  moreover obtain p ps' where "ps = p # ps'" using ne by (cases ps) auto
  ultimately have "decode_all zstd (init zstd) chunks =
      Some (Inr (concat ps, \<lparr>decompressor = \<lparr>stage = Finished, unused_input = []\<rparr>\<rparr>))"
    using decode_zstd_frames [of p ps'] stream by simp
  then show "read_body zstd chunks = Some (Inr (concat ps))"
    by (simp add: read_body_def finish_def flush_def)
qed

theorem frames_read_when_no_chunk_ends_a_frame_witness:
  "read_body zstd (chunked 8 (concat (map compress [bytes_of ''alpha'', bytes_of ''beta'',
     bytes_of ''gamma'']))) = Some (Inr (concat [bytes_of ''alpha'', bytes_of ''beta'',
     bytes_of ''gamma'']))"
proof -
  let ?ps = "[bytes_of ''alpha'', bytes_of ''beta'', bytes_of ''gamma'']"
  let ?cs = "chunked 8 (concat (map compress ?ps))"
  have h1: "?ps \<noteq> []" by simp
  have h2: "concat ?cs = concat (map compress ?ps)"
    by code_simp
  have len: "length ?cs = 4"
    by code_simp
  have apart: "\<forall>k\<in>{0, 1, 2, 3}. \<forall>j\<in>{1, 2}.
      concat (take k ?cs) \<noteq> concat (map compress (take j ?ps))"
    by code_simp
  have h3: "\<forall>k j. k < length ?cs \<and> 0 < j \<and> j < length ?ps \<longrightarrow>
      concat (take k ?cs) \<noteq> concat (map compress (take j ?ps))"
  proof (intro allI impI)
    fix k j assume "k < length ?cs \<and> 0 < j \<and> j < length ?ps"
    then have "k \<in> {0, 1, 2, 3}" "j \<in> {1, 2}" unfolding len by auto
    with apart show "concat (take k ?cs) \<noteq> concat (map compress (take j ?ps))" by blast
  qed
  from frames_read_when_no_chunk_ends_a_frame [of ?ps ?cs] h1 h2 h3
  show ?thesis by blast
qed

end
